theory Spec2Isabelle
  imports Complex_Main
begin

section \<open>Dense complex arrays\<close>

text \<open>
  The package computes with numpy arrays. A two-dimensional array is modelled as the list
  of its rows, each row a list of complex numbers; numpy's floating-point complex numbers
  are idealised as the exact complex numbers of HOL. The only value of the program that is
  not a two-dimensional array is the Python integer 1 with which the tensor folds start,
  so a value that may be either is an \<open>arr\<close>.
\<close>

type_synonym cmat = "complex list list"

datatype arr = Scalar complex | Matrix cmat

datatype error = ValueError | KeyError | TypeError

definition mk :: "nat \<Rightarrow> nat \<Rightarrow> (nat \<Rightarrow> nat \<Rightarrow> complex) \<Rightarrow> cmat" where
  "mk r c f = map (\<lambda>i. map (\<lambda>j. f i j) [0..<c]) [0..<r]"

definition nrows :: "cmat \<Rightarrow> nat" where
  "nrows A = length A"

definition ncols :: "cmat \<Rightarrow> nat" where
  "ncols A = (case A of [] \<Rightarrow> 0 | row # _ \<Rightarrow> length row)"

definition entry :: "cmat \<Rightarrow> nat \<Rightarrow> nat \<Rightarrow> complex" where
  "entry A i j = A ! i ! j"

text \<open>The shape predicate: \<open>r\<close> rows, each of length \<open>c\<close>.\<close>

definition has_shape :: "nat \<Rightarrow> nat \<Rightarrow> cmat \<Rightarrow> bool" where
  "has_shape r c A = (length A = r \<and> list_all (\<lambda>row. length row = c) A)"

subsection \<open>numpy primitives\<close>

text \<open>\<open>A @ B\<close> on two-dimensional arrays whose inner dimensions agree.\<close>

definition matmul :: "cmat \<Rightarrow> cmat \<Rightarrow> cmat" where
  "matmul A B = mk (nrows A) (ncols B) (\<lambda>i j. \<Sum>k<ncols A. entry A i k * entry B k j)"

text \<open>\<open>A @ B\<close> raises ValueError when the inner dimensions differ.\<close>

definition matmul_chk :: "cmat \<Rightarrow> cmat \<Rightarrow> error + cmat" where
  "matmul_chk A B = (if ncols A = nrows B then Inr (matmul A B) else Inl ValueError)"

text \<open>\<open>a @ b\<close> raises TypeError when both operands are the Python integer 1, and
  ValueError when one operand is an array and the other a scalar.\<close>

fun matmul_arr :: "arr \<Rightarrow> arr \<Rightarrow> error + cmat" where
  "matmul_arr (Matrix A) (Matrix B) = matmul_chk A B"
| "matmul_arr (Scalar a) (Scalar b) = Inl TypeError"
| "matmul_arr (Scalar a) (Matrix B) = Inl ValueError"
| "matmul_arr (Matrix A) (Scalar b) = Inl ValueError"

text \<open>\<open>A + B\<close> on arrays of one shape.\<close>

definition madd :: "cmat \<Rightarrow> cmat \<Rightarrow> cmat" where
  "madd A B = mk (nrows A) (ncols A) (\<lambda>i j. entry A i j + entry B i j)"

text \<open>\<open>c * A\<close> for a scalar \<open>c\<close>.\<close>

definition smult :: "complex \<Rightarrow> cmat \<Rightarrow> cmat" where
  "smult c A = map (map (\<lambda>x. c * x)) A"

text \<open>\<open>np.kron\<close> on two-dimensional arrays.\<close>

definition kron :: "cmat \<Rightarrow> cmat \<Rightarrow> cmat" where
  "kron A B = mk (nrows A * nrows B) (ncols A * ncols B)
     (\<lambda>i j. entry A (i div nrows B) (j div ncols B) * entry B (i mod nrows B) (j mod ncols B))"

text \<open>\<open>a + b\<close> and \<open>a += b\<close> with numpy's broadcasting of a scalar.\<close>

fun add_arr :: "arr \<Rightarrow> arr \<Rightarrow> arr" where
  "add_arr (Scalar a) (Scalar b) = Scalar (a + b)"
| "add_arr (Scalar a) (Matrix B) = Matrix (map (map (\<lambda>x. a + x)) B)"
| "add_arr (Matrix A) (Scalar b) = Matrix (map (map (\<lambda>x. x + b)) A)"
| "add_arr (Matrix A) (Matrix B) = Matrix (madd A B)"

subsection \<open>The helpers of \<open>qutipy.general_functions\<close>\<close>

text \<open>Modelled from the spec: \<open>eye\<close> of \<open>qutipy.general_functions\<close>, which is
  not among the source files; the \<open>d \<times> d\<close> identity matrix.\<close>

definition eye :: "nat \<Rightarrow> cmat" where
  "eye d = mk d d (\<lambda>i j. if i = j then 1 else 0)"

text \<open>Modelled from the spec: \<open>ket\<close> of \<open>qutipy.general_functions\<close>, which is
  not among the source files; the \<open>d \<times> 1\<close> column standard basis vector with 1 at
  row \<open>i\<close>. The specification says nothing about \<open>i \<ge> d\<close>; for \<open>d \<ge> 2\<close> every
  call in the functions below has \<open>i < d\<close>.\<close>

definition ket :: "nat \<Rightarrow> nat \<Rightarrow> cmat" where
  "ket d i = mk d 1 (\<lambda>r c. if r = i then 1 else 0)"

text \<open>Modelled from the spec: \<open>dag\<close> of \<open>qutipy.general_functions\<close>, which is
  not among the source files; the conjugate transpose.\<close>

definition dag :: "cmat \<Rightarrow> cmat" where
  "dag A = mk (ncols A) (nrows A) (\<lambda>i j. cnj (entry A j i))"

text \<open>Modelled from the spec: \<open>Tr\<close> of \<open>qutipy.general_functions\<close>, which is
  not among the source files; the trace, a complex scalar.\<close>

definition Tr :: "cmat \<Rightarrow> complex" where
  "Tr A = (\<Sum>i<min (nrows A) (ncols A). entry A i i)"

text \<open>Modelled from the spec: \<open>tensor\<close> of \<open>qutipy.general_functions\<close>, which is
  not among the source files; the Kronecker product, with the scalar 1 an identity of
  the left fold (a scalar operand multiplies the other operand).\<close>

fun tensor :: "arr \<Rightarrow> arr \<Rightarrow> arr" where
  "tensor (Scalar a) (Scalar b) = Scalar (a * b)"
| "tensor (Scalar a) (Matrix B) = Matrix (smult a B)"
| "tensor (Matrix A) (Scalar b) = Matrix (smult b A)"
| "tensor (Matrix A) (Matrix B) = Matrix (kron A B)"

text \<open>\<open>numpy.linalg.matrix_power\<close> for a natural exponent: the identity of the
  operand's size at exponent 0, and the repeated product otherwise.\<close>

fun matrix_power :: "cmat \<Rightarrow> nat \<Rightarrow> cmat" where
  "matrix_power M 0 = eye (nrows M)"
| "matrix_power M (Suc k) = matmul (matrix_power M k) M"

section \<open>Pauli-Z tensor products (\<open>generate_nQubit_Pauli_Z.py\<close>)\<close>

text \<open>The function returns either an array or, for an index that is not a bit, a string.
  The state of the loop is the array \<open>out\<close> together with the number of calls of
  \<open>tensor\<close> made so far, so that what the loop has processed when it returns can be
  observed; \<open>generate_nQubit_Pauli_Z\<close> is the returned value and \<open>tensor_calls\<close> the
  number of calls of \<open>tensor\<close> of the run.\<close>

datatype pauli_result = Str string | Arr arr

definition Sz :: cmat where
  "Sz = [[1, 0], [0, -1]]"

fun pauli_loop :: "arr \<Rightarrow> nat \<Rightarrow> int list \<Rightarrow> pauli_result \<times> nat" where
  "pauli_loop out calls [] = (Arr out, calls)"
| "pauli_loop out calls (index # rest) =
     (if index = 0 then pauli_loop (tensor out (Matrix (eye 2))) (calls + 1) rest
      else if index = 1 then pauli_loop (tensor out (Matrix Sz)) (calls + 1) rest
      else (Str ''Error: Indices must be bits, either 0 or 1!'', calls))"

definition generate_nQubit_Pauli_Z_run :: "int list \<Rightarrow> pauli_result \<times> nat" where
  "generate_nQubit_Pauli_Z_run indices = pauli_loop (Scalar 1) 0 indices"

definition generate_nQubit_Pauli_Z :: "int list \<Rightarrow> pauli_result" where
  "generate_nQubit_Pauli_Z indices = fst (generate_nQubit_Pauli_Z_run indices)"

definition tensor_calls :: "int list \<Rightarrow> nat" where
  "tensor_calls indices = snd (generate_nQubit_Pauli_Z_run indices)"

section \<open>Discrete Weyl operators (\<open>weyl.py\<close>)\<close>

text \<open>\<open>w = np.exp(2 * np.pi * 1j / d)\<close>.\<close>

definition w :: "nat \<Rightarrow> complex" where
  "w d = exp (2 * of_real pi * \<i> / of_nat d)"

definition discrete_Weyl_X :: "nat \<Rightarrow> cmat" where
  "discrete_Weyl_X d =
     foldl (\<lambda>X i. madd X (matmul (ket d ((i + 1) mod d)) (dag (ket d i))))
       (matmul (ket d 1) (dag (ket d 0))) [1..<d]"

definition discrete_Weyl_Z :: "nat \<Rightarrow> cmat" where
  "discrete_Weyl_Z d =
     foldl (\<lambda>Z i. madd Z (matmul (smult (w d ^ i) (ket d i)) (dag (ket d i))))
       (matmul (ket d 0) (dag (ket d 0))) [1..<d]"

definition discrete_Weyl :: "nat \<Rightarrow> nat \<Rightarrow> nat \<Rightarrow> cmat" where
  "discrete_Weyl d z x =
     matmul (matrix_power (discrete_Weyl_Z d) z) (matrix_power (discrete_Weyl_X d) x)"

definition discrete_Weyl_basis :: "nat \<Rightarrow> cmat list" where
  "discrete_Weyl_basis d =
     concat (map (\<lambda>z. map (\<lambda>x. discrete_Weyl d z x) [0..<d]) [0..<d])"

definition generate_nQudit_X :: "nat \<Rightarrow> nat list \<Rightarrow> arr" where
  "generate_nQudit_X d indices =
     foldl (\<lambda>out index. tensor out (Matrix (matrix_power (discrete_Weyl_X d) index)))
       (Scalar 1) indices"

definition generate_nQudit_Z :: "nat \<Rightarrow> nat list \<Rightarrow> arr" where
  "generate_nQudit_Z d indices =
     foldl (\<lambda>out index. tensor out (Matrix (matrix_power (discrete_Weyl_Z d) index)))
       (Scalar 1) indices"

text \<open>\<open>np.mod(-i, d)\<close> for \<open>0 \<le> i\<close>: the representative of \<open>-i\<close> in
  \<open>[0, d)\<close>.\<close>

definition neg_mod :: "nat \<Rightarrow> nat \<Rightarrow> nat" where
  "neg_mod i d = nat ((- int i) mod int d)"

definition flip_sign :: "nat \<Rightarrow> cmat" where
  "flip_sign d =
     foldl (\<lambda>P i. madd P (matmul (ket d (neg_mod i d)) (dag (ket d i))))
       (matmul (ket d 0) (dag (ket d 0))) [1..<d]"

definition CNOT_qudit :: "nat \<Rightarrow> bool \<Rightarrow> arr" where
  "CNOT_qudit d alt =
     (let P = flip_sign d;
          C = tensor (Matrix (matmul (ket d 0) (dag (ket d 0)))) (Matrix (eye d));
          X = discrete_Weyl_X d
      in foldl (\<lambda>C i.
           (let Xi = matrix_power X i
            in if alt
               then add_arr C (tensor (Matrix (matmul (ket d i) (dag (ket d i)))) (Matrix Xi))
               else add_arr C (tensor (Matrix (matmul (ket d i) (dag (ket d i))))
                                 (Matrix (matmul Xi P)))))
           C [1..<d])"

section \<open>Operators named by the specification\<close>

text \<open>The block sum \<open>\<Sum>\<^sub>i |i><i| \<otimes> W\<^sub>i\<close> of the specification over
  \<open>i\<close> in \<open>[0, d)\<close>: the sum, started from the zero matrix, of the Kronecker products
  of the projector \<open>|i><i|\<close> with \<open>W i\<close>.\<close>

definition block_sum :: "nat \<Rightarrow> (nat \<Rightarrow> cmat) \<Rightarrow> cmat" where
  "block_sum d W =
     foldl (\<lambda>C i. madd C (kron (matmul (ket d i) (dag (ket d i))) (W i)))
       (mk (d * d) (d * d) (\<lambda>r c. 0)) [0..<d]"

text \<open>The same operator by its entries: the block-diagonal \<open>d\<^sup>2 \<times> d\<^sup>2\<close> matrix whose
  \<open>i\<close>-th diagonal block is \<open>W i\<close> (used in the proofs).\<close>

definition controlled :: "nat \<Rightarrow> (nat \<Rightarrow> cmat) \<Rightarrow> cmat" where
  "controlled d W = mk (d * d) (d * d)
     (\<lambda>r c. if r div d = c div d then entry (W (r div d)) (r mod d) (c mod d) else 0)"

section \<open>n-qudit operators, quadratures and the Weyl decomposition (\<open>weyl.py\<close>)\<close>

text \<open>\<open>itertools.product\<close> over a list of pools, as the Python documentation defines
  it: \<open>result = [[]]\<close>, then for each pool
  \<open>result = [x + [y] for x in result for y in pool]\<close>.\<close>

definition product_step :: "nat list list \<Rightarrow> nat list \<Rightarrow> nat list list" where
  "product_step result pool = concat (map (\<lambda>x. map (\<lambda>y. x @ [y]) pool) result)"

definition itertools_product :: "nat list list \<Rightarrow> nat list list" where
  "itertools_product pools = foldl product_step [[]] pools"

text \<open>The loops of \<open>nQudit_discrete_Weyl_basis\<close>: \<open>B.append(Z(s1) @ X(s2))\<close> for
  \<open>s2\<close> in \<open>S\<close>, for \<open>s1\<close> in \<open>S\<close>.\<close>

fun basis_inner :: "nat \<Rightarrow> nat list \<Rightarrow> nat list list \<Rightarrow> cmat list \<Rightarrow> error + cmat list" where
  "basis_inner d s1 [] B = Inr B"
| "basis_inner d s1 (s2 # rest) B =
     (case matmul_arr (generate_nQudit_Z d s1) (generate_nQudit_X d s2) of
        Inl e \<Rightarrow> Inl e
      | Inr M \<Rightarrow> basis_inner d s1 rest (B @ [M]))"

fun basis_outer :: "nat \<Rightarrow> nat list list \<Rightarrow> nat list list \<Rightarrow> cmat list \<Rightarrow> error + cmat list" where
  "basis_outer d S [] B = Inr B"
| "basis_outer d S (s1 # rest) B =
     (case basis_inner d s1 S B of
        Inl e \<Rightarrow> Inl e
      | Inr B' \<Rightarrow> basis_outer d S rest B')"

definition nQudit_discrete_Weyl_basis :: "nat \<Rightarrow> nat \<Rightarrow> error + cmat list" where
  "nQudit_discrete_Weyl_basis d n =
     (let S = itertools_product (replicate n [0..<d]) in basis_outer d S S [])"

text \<open>\<open>dag\<close> applied to a value that may be the scalar of an empty fold.\<close>

fun dag_arr :: "arr \<Rightarrow> arr" where
  "dag_arr (Scalar c) = Scalar (cnj c)"
| "dag_arr (Matrix A) = Matrix (dag A)"

text \<open>\<open>list(np.array(a, dtype=int).flatten())\<close>: the entries of the array in row-major
  order, each converted to an integer (the entries here are 0 and 1).\<close>

definition int_flatten :: "cmat \<Rightarrow> nat list" where
  "int_flatten A = map (\<lambda>z. nat \<lfloor>Re z\<rfloor>) (concat A)"

text \<open>\<open>nQudit_quadratures\<close>: the loop variable \<open>i\<close> runs over
  \<open>range(1, 2 * n + 1, 2)\<close> and \<open>count\<close> is incremented with it.\<close>

definition quadratures_step ::
    "nat \<Rightarrow> nat \<Rightarrow> (nat \<rightharpoonup> arr) \<times> nat \<Rightarrow> nat \<Rightarrow> (nat \<rightharpoonup> arr) \<times> nat" where
  "quadratures_step d n st i =
     (let S = fst st; count = snd st;
          v = int_flatten (dag (ket n count));
          S1 = S(i \<mapsto> generate_nQudit_X d v);
          S2 = S1(i + 1 \<mapsto> generate_nQudit_Z d v)
      in (S2, count + 1))"

definition nQudit_quadratures :: "nat \<Rightarrow> nat \<Rightarrow> (nat \<rightharpoonup> arr)" where
  "nQudit_quadratures d n =
     fst (foldl (quadratures_step d n) (Map.empty, 0) (map (\<lambda>k. 1 + 2 * k) [0..<n]))"

text \<open>One entry of the covariance matrix: \<open>Tr(X @ S[i + 1] @ dag(S[j + 1]))\<close>, the
  products taken from the left; a missing key raises KeyError.\<close>

definition cov_entry :: "cmat \<Rightarrow> (nat \<rightharpoonup> arr) \<Rightarrow> nat \<Rightarrow> nat \<Rightarrow> error + complex" where
  "cov_entry X S i j =
     (case S (i + 1) of
        None \<Rightarrow> Inl KeyError
      | Some Si \<Rightarrow>
          (case matmul_arr (Matrix X) Si of
             Inl e \<Rightarrow> Inl e
           | Inr XS \<Rightarrow>
               (case S (j + 1) of
                  None \<Rightarrow> Inl KeyError
                | Some Sj \<Rightarrow>
                    (case matmul_arr (Matrix XS) (dag_arr Sj) of
                       Inl e \<Rightarrow> Inl e
                     | Inr M \<Rightarrow> Inr (Tr M)))))"

fun cov_inner :: "cmat \<Rightarrow> (nat \<rightharpoonup> arr) \<Rightarrow> nat \<Rightarrow> nat list \<Rightarrow> cmat \<Rightarrow> error + cmat" where
  "cov_inner X S i [] V = Inr V"
| "cov_inner X S i (j # rest) V =
     (case cov_entry X S i j of
        Inl e \<Rightarrow> Inl e
      | Inr v \<Rightarrow> cov_inner X S i rest (V[i := (V ! i)[j := v]]))"

fun cov_outer :: "cmat \<Rightarrow> (nat \<rightharpoonup> arr) \<Rightarrow> nat \<Rightarrow> nat list \<Rightarrow> cmat \<Rightarrow> error + cmat" where
  "cov_outer X S n [] V = Inr V"
| "cov_outer X S n (i # rest) V =
     (case cov_inner X S i [0..<2 * n] V of
        Inl e \<Rightarrow> Inl e
      | Inr V' \<Rightarrow> cov_outer X S n rest V')"

definition nQudit_cov_matrix :: "cmat \<Rightarrow> nat \<Rightarrow> nat \<Rightarrow> error + cmat" where
  "nQudit_cov_matrix X d n =
     (let S = nQudit_quadratures d n;
          V = mk (2 * n) (2 * n) (\<lambda>i j. 0)
      in cov_outer X S n [0..<2 * n] V)"

text \<open>\<open>str\<close> of a non-negative Python integer and of a list of such integers:
  \<open>str([0, 12]) = '[0, 12]'\<close>.\<close>

definition digit_char :: "nat \<Rightarrow> char" where
  "digit_char k = ''0123456789'' ! k"

fun str_nat :: "nat \<Rightarrow> string" where
  "str_nat k = (if k < 10 then [digit_char k] else str_nat (k div 10) @ [digit_char (k mod 10)])"

fun join_commas :: "nat list \<Rightarrow> string" where
  "join_commas [] = []"
| "join_commas [x] = str_nat x"
| "join_commas (x # y # ys) = str_nat x @ '', '' @ join_commas (y # ys)"

definition str_list :: "nat list \<Rightarrow> string" where
  "str_list xs = ''['' @ join_commas xs @ '']''"

text \<open>\<open>np.around(z, decimals)\<close>: the real and the imaginary part are each scaled by
  \<open>10 ^ decimals\<close>, rounded to the nearest integer with ties going to the even one, and
  scaled back. The scaling and the division are exact here; in numpy they are
  floating-point operations.\<close>

definition rint :: "real \<Rightarrow> int" where
  "rint x =
     (let f = \<lfloor>x\<rfloor>; r = x - of_int f
      in if r < 1 / 2 then f else if 1 / 2 < r then f + 1 else if even f then f else f + 1)"

definition around_real :: "real \<Rightarrow> nat \<Rightarrow> real" where
  "around_real x decimals = of_int (rint (x * 10 ^ decimals)) / 10 ^ decimals"

definition around :: "complex \<Rightarrow> nat \<Rightarrow> complex" where
  "around z decimals = Complex (around_real (Re z) decimals) (around_real (Im z) decimals)"

text \<open>The loops of \<open>nQudit_Weyl_coeff\<close>; the dictionary \<open>C\<close> is keyed by the pair of
  strings \<open>(str(s), str(t))\<close>.\<close>

type_synonym coeffs = "string \<times> string \<rightharpoonup> complex"

fun coeff_inner ::
    "cmat \<Rightarrow> nat \<Rightarrow> nat \<Rightarrow> nat list \<Rightarrow> nat list list \<Rightarrow> coeffs \<Rightarrow> error + coeffs" where
  "coeff_inner X d n s [] C = Inr C"
| "coeff_inner X d n s (t # rest) C =
     (case matmul_arr (generate_nQudit_X d s) (generate_nQudit_Z d t) of
        Inl e \<Rightarrow> Inl e
      | Inr G \<Rightarrow>
          (case matmul_chk (dag G) X of
             Inl e \<Rightarrow> Inl e
           | Inr M \<Rightarrow>
               coeff_inner X d n s rest
                 (C((str_list s, str_list t) \<mapsto> (1 / of_nat (d ^ n)) * around (Tr M) 10))))"

fun coeff_outer ::
    "cmat \<Rightarrow> nat \<Rightarrow> nat \<Rightarrow> nat list list \<Rightarrow> nat list list \<Rightarrow> coeffs \<Rightarrow> error + coeffs" where
  "coeff_outer X d n S [] C = Inr C"
| "coeff_outer X d n S (s # rest) C =
     (case coeff_inner X d n s S C of
        Inl e \<Rightarrow> Inl e
      | Inr C' \<Rightarrow> coeff_outer X d n S rest C')"

definition nQudit_Weyl_coeff :: "cmat \<Rightarrow> nat \<Rightarrow> nat \<Rightarrow> error + coeffs" where
  "nQudit_Weyl_coeff X d n =
     (let S = itertools_product (replicate n [0..<d]) in coeff_outer X d n S S Map.empty)"

section \<open>The Weyl decomposition with the computed value of \<open>w\<close>\<close>

text \<open>
  numpy evaluates \<open>w = np.exp(2 * np.pi * 1j / d)\<close> in double precision: the number the
  program computes with is a double close to the root of unity, not the root itself. To
  tell the two apart, \<open>discrete_Weyl_Z\<close>, \<open>generate_nQudit_Z\<close> and
  \<open>nQudit_Weyl_coeff\<close> are repeated here with the value of \<open>w\<close> as a parameter
  \<open>\<omega>\<close>; everything else in them is as above, and at \<open>\<omega> = w d\<close> they are the
  functions above.
\<close>

definition discrete_Weyl_Z_with :: "complex \<Rightarrow> nat \<Rightarrow> cmat" where
  "discrete_Weyl_Z_with \<omega> d =
     foldl (\<lambda>Z i. madd Z (matmul (smult (\<omega> ^ i) (ket d i)) (dag (ket d i))))
       (matmul (ket d 0) (dag (ket d 0))) [1..<d]"

definition generate_nQudit_Z_with :: "complex \<Rightarrow> nat \<Rightarrow> nat list \<Rightarrow> arr" where
  "generate_nQudit_Z_with \<omega> d indices =
     foldl (\<lambda>out index. tensor out (Matrix (matrix_power (discrete_Weyl_Z_with \<omega> d) index)))
       (Scalar 1) indices"

fun coeff_inner_with ::
    "complex \<Rightarrow> cmat \<Rightarrow> nat \<Rightarrow> nat \<Rightarrow> nat list \<Rightarrow> nat list list \<Rightarrow> coeffs \<Rightarrow> error + coeffs" where
  "coeff_inner_with \<omega> X d n s [] C = Inr C"
| "coeff_inner_with \<omega> X d n s (t # rest) C =
     (case matmul_arr (generate_nQudit_X d s) (generate_nQudit_Z_with \<omega> d t) of
        Inl e \<Rightarrow> Inl e
      | Inr G \<Rightarrow>
          (case matmul_chk (dag G) X of
             Inl e \<Rightarrow> Inl e
           | Inr M \<Rightarrow>
               coeff_inner_with \<omega> X d n s rest
                 (C((str_list s, str_list t) \<mapsto> (1 / of_nat (d ^ n)) * around (Tr M) 10))))"

fun coeff_outer_with ::
    "complex \<Rightarrow> cmat \<Rightarrow> nat \<Rightarrow> nat \<Rightarrow> nat list list \<Rightarrow> nat list list \<Rightarrow> coeffs \<Rightarrow> error + coeffs" where
  "coeff_outer_with \<omega> X d n S [] C = Inr C"
| "coeff_outer_with \<omega> X d n S (s # rest) C =
     (case coeff_inner_with \<omega> X d n s S C of
        Inl e \<Rightarrow> Inl e
      | Inr C' \<Rightarrow> coeff_outer_with \<omega> X d n S rest C')"

definition nQudit_Weyl_coeff_with :: "complex \<Rightarrow> cmat \<Rightarrow> nat \<Rightarrow> nat \<Rightarrow> error + coeffs" where
  "nQudit_Weyl_coeff_with \<omega> X d n =
     (let S = itertools_product (replicate n [0..<d])
      in coeff_outer_with \<omega> X d n S S Map.empty)"

text \<open>The value of \<open>np.exp(2 * np.pi * 1j / 2)\<close> in IEEE double precision, which Python
  prints as \<open>(-1+1.2246467991473532e-16j)\<close>: the real part is \<open>-1\<close> and the imaginary
  part is the double \<open>0x1.1a62633145c07p-53\<close>, that is \<open>4967757600021511 / 2\<^sup>1\<^sup>0\<^sup>5\<close>
  (the sine of the double nearest to \<open>\<pi>\<close>).\<close>

definition w_double_2 :: complex where
  "w_double_2 = Complex (- 1) (4967757600021511 / 2 ^ 105)"

section \<open>Notions of the specification about the n-qudit functions\<close>

text \<open>The \<open>k\<close>-th tuple of \<open>[0, d)\<^sup>n\<close> in lexicographic order with the rightmost
  element varying fastest: the \<open>n\<close> base-\<open>d\<close> digits of \<open>k\<close>, most significant first.\<close>

definition tuple_at :: "nat \<Rightarrow> nat \<Rightarrow> nat \<Rightarrow> nat list" where
  "tuple_at d n k = map (\<lambda>p. (k div d ^ (n - 1 - p)) mod d) [0..<n]"

text \<open>The index lists of \<open>[0, d)\<^sup>n\<close>.\<close>

definition index_lists :: "nat \<Rightarrow> nat \<Rightarrow> nat list set" where
  "index_lists d n = {s. length s = n \<and> list_all (\<lambda>x. x < d) s}"

text \<open>A matrix is real-valued when every entry has imaginary part 0.\<close>

definition real_valued :: "cmat \<Rightarrow> bool" where
  "real_valued V = list_all (list_all (\<lambda>z. Im z = 0)) V"

text \<open>The weighted sum of the round-trip property: the sum over all pairs \<open>(s, t)\<close> of
  \<open>C[(str(s), str(t))] * (generate_nQudit_X(d, s) @ generate_nQudit_Z(d, t))\<close>, started
  from the zero matrix, and the round trip itself: the coefficient table of \<open>X\<close>, then the
  weighted sum. Both are taken with the value of \<open>w\<close> as the parameter \<open>\<omega>\<close>.\<close>

definition weyl_term :: "complex \<Rightarrow> coeffs \<Rightarrow> nat \<Rightarrow> nat list \<Rightarrow> nat list \<Rightarrow> error + cmat" where
  "weyl_term \<omega> C d s t =
     (case C (str_list s, str_list t) of
        None \<Rightarrow> Inl KeyError
      | Some c \<Rightarrow>
          (case matmul_arr (generate_nQudit_X d s) (generate_nQudit_Z_with \<omega> d t) of
             Inl e \<Rightarrow> Inl e
           | Inr G \<Rightarrow> Inr (smult c G)))"

fun weyl_sum_list ::
    "complex \<Rightarrow> coeffs \<Rightarrow> nat \<Rightarrow> (nat list \<times> nat list) list \<Rightarrow> cmat \<Rightarrow> error + cmat" where
  "weyl_sum_list \<omega> C d [] R = Inr R"
| "weyl_sum_list \<omega> C d ((s, t) # rest) R =
     (case weyl_term \<omega> C d s t of
        Inl e \<Rightarrow> Inl e
      | Inr M \<Rightarrow> weyl_sum_list \<omega> C d rest (madd R M))"

definition weyl_sum :: "complex \<Rightarrow> coeffs \<Rightarrow> nat \<Rightarrow> nat \<Rightarrow> error + cmat" where
  "weyl_sum \<omega> C d n =
     (let S = itertools_product (replicate n [0..<d])
      in weyl_sum_list \<omega> C d (concat (map (\<lambda>s. map (\<lambda>t. (s, t)) S) S))
           (mk (d ^ n) (d ^ n) (\<lambda>i j. 0)))"

definition round_trip :: "complex \<Rightarrow> cmat \<Rightarrow> nat \<Rightarrow> nat \<Rightarrow> error + cmat" where
  "round_trip \<omega> X d n =
     (case nQudit_Weyl_coeff_with \<omega> X d n of
        Inl e \<Rightarrow> Inl e
      | Inr C \<Rightarrow> weyl_sum \<omega> C d n)"

text \<open>The matrix that the tensor fold of \<open>generate_nQudit_X\<close> and
  \<open>generate_nQudit_Z\<close> builds on a non-empty index list, with the fold started from the
  \<open>1 \<times> 1\<close> identity instead of the scalar 1 (used in the proofs only).\<close>

definition nfold :: "cmat \<Rightarrow> nat list \<Rightarrow> cmat" where
  "nfold M s = foldl (\<lambda>A index. kron A (matrix_power M index)) [[1]] s"

text \<open>The \<open>c\<close>-th standard basis vector of length \<open>n\<close> as an index list, and the
  matrix stored under key \<open>i + 1\<close> of the quadrature dictionary (used in the proofs
  only).\<close>

definition unit_list :: "nat \<Rightarrow> nat \<Rightarrow> nat list" where
  "unit_list n c = map (\<lambda>k. if k = c then 1 else 0) [0..<n]"

definition quadrature_matrix :: "nat \<Rightarrow> nat \<Rightarrow> nat \<Rightarrow> cmat" where
  "quadrature_matrix d n i =
     (if even i then nfold (discrete_Weyl_X d) (unit_list n (i div 2))
      else nfold (discrete_Weyl_Z d) (unit_list n (i div 2)))"

text \<open>Auxiliary notions for the coefficient table: the decimal digits, the key of a pair
  of index lists, the operator \<open>G\<close> of a pair and the value stored for it, and the lookup
  \<open>C[(str(s), str(t))]\<close> in a returned table.\<close>

definition is_digit :: "char \<Rightarrow> bool" where
  "is_digit c = (c \<in> set ''0123456789'')"

definition weyl_key :: "nat list \<times> nat list \<Rightarrow> string \<times> string" where
  "weyl_key p = (str_list (fst p), str_list (snd p))"

definition weyl_G :: "nat \<Rightarrow> nat list \<Rightarrow> nat list \<Rightarrow> cmat" where
  "weyl_G d s t = matmul (nfold (discrete_Weyl_X d) s) (nfold (discrete_Weyl_Z d) t)"

definition weyl_val :: "cmat \<Rightarrow> nat \<Rightarrow> nat \<Rightarrow> nat list \<times> nat list \<Rightarrow> complex" where
  "weyl_val X d n p =
     (1 / of_nat (d ^ n)) * around (Tr (matmul (dag (weyl_G d (fst p) (snd p))) X)) 10"

definition lookup_coeff :: "error + coeffs \<Rightarrow> nat list \<Rightarrow> nat list \<Rightarrow> complex option" where
  "lookup_coeff r s t = (case r of Inl e \<Rightarrow> None | Inr C \<Rightarrow> C (str_list s, str_list t))"


text \<open>Auxiliary notions for the round trip. A family \<open>E a b\<close> of \<open>N \<times> N\<close>
  matrices, given by its entries \<open>E a b i j\<close>, is complete when every matrix \<open>F\<close> is
  recovered as \<open>(1/N) \<Sum>\<^sub>a\<^sub>b Tr(dag(E a b) F) E a b\<close>; \<open>inner_sys\<close> is that trace,
  \<open>unit_sys\<close> says that the moduli of the entries at a fixed position sum to \<open>N\<close>, and
  \<open>tensor_sys\<close> is the family of Kronecker products of two families.\<close>

definition inner_sys :: "nat \<Rightarrow> (nat \<Rightarrow> nat \<Rightarrow> complex) \<Rightarrow> (nat \<Rightarrow> nat \<Rightarrow> complex) \<Rightarrow> complex" where
  "inner_sys N e F = (\<Sum>p<N. \<Sum>q<N. cnj (e p q) * F p q)"

definition complete_sys :: "nat \<Rightarrow> (nat \<Rightarrow> nat \<Rightarrow> nat \<Rightarrow> nat \<Rightarrow> complex) \<Rightarrow> bool" where
  "complete_sys N E =
     (\<forall>F i j. i < N \<longrightarrow> j < N \<longrightarrow>
        (\<Sum>a<N. \<Sum>b<N. inner_sys N (E a b) F * E a b i j) = of_nat N * F i j)"

definition unit_sys :: "nat \<Rightarrow> (nat \<Rightarrow> nat \<Rightarrow> nat \<Rightarrow> nat \<Rightarrow> complex) \<Rightarrow> bool" where
  "unit_sys N E =
     (\<forall>i j. i < N \<longrightarrow> j < N \<longrightarrow> (\<Sum>a<N. \<Sum>b<N. cmod (E a b i j)) = of_nat N)"

definition tensor_sys ::
    "nat \<Rightarrow> (nat \<Rightarrow> nat \<Rightarrow> nat \<Rightarrow> nat \<Rightarrow> complex) \<Rightarrow> (nat \<Rightarrow> nat \<Rightarrow> nat \<Rightarrow> nat \<Rightarrow> complex) \<Rightarrow>
     nat \<Rightarrow> nat \<Rightarrow> nat \<Rightarrow> nat \<Rightarrow> complex" where
  "tensor_sys d E h a b i j =
     E (a div d) (b div d) (i div d) (j div d) * h (a mod d) (b mod d) (i mod d) (j mod d)"

text \<open>The \<open>n\<close>-fold Kronecker power of a family, and the entries of the single-qudit
  operator \<open>X\<^sup>a Z\<^sup>b\<close> (used in the proofs only).\<close>

fun pow_sys :: "nat \<Rightarrow> (nat \<Rightarrow> nat \<Rightarrow> nat \<Rightarrow> nat \<Rightarrow> complex) \<Rightarrow> nat \<Rightarrow>
    nat \<Rightarrow> nat \<Rightarrow> nat \<Rightarrow> nat \<Rightarrow> complex" where
  "pow_sys d h 0 = (\<lambda>a b i j. 1)"
| "pow_sys d h (Suc n) = tensor_sys d (pow_sys d h n) h"

definition weyl_entry :: "nat \<Rightarrow> nat \<Rightarrow> nat \<Rightarrow> nat \<Rightarrow> nat \<Rightarrow> complex" where
  "weyl_entry d a b i j = (if i = (j + a) mod d then w d ^ (j * b) else 0)"

section \<open>Basic facts about the array operations\<close>

subsection \<open>Shapes and entries\<close>

lemma has_shape_mk [simp]: "has_shape r c (mk r c f)"
  by (simp add: has_shape_def mk_def list_all_iff)

lemma nrows_mk [simp]: "nrows (mk r c f) = r"
  by (simp add: nrows_def mk_def)

lemma ncols_mk [simp]: "0 < r \<Longrightarrow> ncols (mk r c f) = c"
  by (cases r) (simp_all add: ncols_def mk_def upt_conv_Cons del: upt_Suc)

lemma entry_mk [simp]: "i < r \<Longrightarrow> j < c \<Longrightarrow> entry (mk r c f) i j = f i j"
  by (simp add: entry_def mk_def)

lemma has_shape_nrows: "has_shape r c A \<Longrightarrow> nrows A = r"
  by (simp add: has_shape_def nrows_def)

lemma has_shape_ncols: "has_shape r c A \<Longrightarrow> 0 < r \<Longrightarrow> ncols A = c"
  by (cases A) (auto simp: has_shape_def ncols_def)

lemma mk_entry: "has_shape r c A \<Longrightarrow> mk r c (entry A) = A"
  by (auto simp: has_shape_def mk_def entry_def list_all_iff intro!: nth_equalityI)

lemma mk_cong:
  "r = r' \<Longrightarrow> c = c' \<Longrightarrow> (\<And>i j. i < r' \<Longrightarrow> j < c' \<Longrightarrow> f i j = g i j) \<Longrightarrow>
   mk r c f = mk r' c' g"
  by (simp add: mk_def)

lemma mat_eqI:
  assumes "has_shape r c A" "has_shape r c B"
    and "\<And>i j. i < r \<Longrightarrow> j < c \<Longrightarrow> entry A i j = entry B i j"
  shows "A = B"
proof -
  have "mk r c (entry A) = mk r c (entry B)"
    using assms(3) by (intro mk_cong) simp_all
  then show ?thesis
    using assms(1,2) by (simp add: mk_entry)
qed

lemma has_shape_matmul: "has_shape r n A \<Longrightarrow> has_shape n c B \<Longrightarrow> 0 < n \<Longrightarrow> has_shape r c (matmul A B)"
  by (simp add: matmul_def has_shape_nrows has_shape_ncols)

lemma matmul_mk:
  "0 < r \<Longrightarrow> 0 < n \<Longrightarrow> matmul (mk r n f) (mk n c g) = mk r c (\<lambda>i j. \<Sum>k<n. f i k * g k j)"
  by (simp add: matmul_def cong: mk_cong)

lemma entry_matmul:
  "has_shape r n A \<Longrightarrow> has_shape n c B \<Longrightarrow> 0 < r \<Longrightarrow> 0 < n \<Longrightarrow> i < r \<Longrightarrow> j < c \<Longrightarrow>
   entry (matmul A B) i j = (\<Sum>k<n. entry A i k * entry B k j)"
  by (simp add: matmul_def has_shape_nrows has_shape_ncols)

lemma madd_mk: "0 < r \<Longrightarrow> madd (mk r c f) (mk r c g) = mk r c (\<lambda>i j. f i j + g i j)"
  by (simp add: madd_def cong: mk_cong)

lemma smult_mk: "smult a (mk r c f) = mk r c (\<lambda>i j. a * f i j)"
  by (simp add: smult_def mk_def)

lemma dag_mk: "0 < r \<Longrightarrow> dag (mk r c f) = mk c r (\<lambda>i j. cnj (f j i))"
  by (simp add: dag_def cong: mk_cong)

lemma kron_mk:
  "0 < r \<Longrightarrow> 0 < r' \<Longrightarrow> 0 < c' \<Longrightarrow>
   kron (mk r c f) (mk r' c' g) =
   mk (r * r') (c * c') (\<lambda>i j. f (i div r') (j div c') * g (i mod r') (j mod c'))"
  unfolding kron_def
  by (simp add: less_mult_imp_div_less cong: mk_cong)

lemma Tr_mk: "0 < d \<Longrightarrow> Tr (mk d d f) = (\<Sum>i<d. f i i)"
  by (simp add: Tr_def)

subsection \<open>Rank-one terms and the loops that sum them\<close>

lemma outer_ket:
  "0 < d \<Longrightarrow> matmul (ket d a) (dag (ket d b)) = mk d d (\<lambda>i j. if i = a \<and> j = b then 1 else 0)"
  by (simp add: ket_def dag_mk matmul_mk) (auto intro!: mk_cong)

lemma outer_ket_smult:
  "0 < d \<Longrightarrow> matmul (smult c (ket d a)) (dag (ket d b)) =
     mk d d (\<lambda>i j. if i = a \<and> j = b then c else 0)"
  by (simp add: ket_def smult_mk dag_mk matmul_mk) (auto intro!: mk_cong)

lemma X_loop:
  assumes "2 \<le> d"
  shows "Suc k \<le> d \<Longrightarrow>
    foldl (\<lambda>X i. madd X (matmul (ket d ((i + 1) mod d)) (dag (ket d i))))
       (matmul (ket d 1) (dag (ket d 0))) [1..<Suc k] =
    mk d d (\<lambda>i j. if j < Suc k \<and> i = (j + 1) mod d then 1 else 0)"
proof (induction k)
  case 0
  then show ?case using assms by (auto simp: outer_ket intro!: mk_cong)
next
  case (Suc k)
  then show ?case using assms
    by (auto simp: outer_ket madd_mk less_Suc_eq intro!: mk_cong)
qed

lemma discrete_Weyl_X_mk:
  assumes "2 \<le> d"
  shows "discrete_Weyl_X d = mk d d (\<lambda>i j. if i = (j + 1) mod d then 1 else 0)"
proof -
  obtain k where k: "d = Suc k" using assms by (cases d) auto
  show ?thesis
    unfolding discrete_Weyl_X_def
    using X_loop[OF assms, of k] k by (auto intro!: mk_cong)
qed

lemma Z_loop:
  assumes "1 \<le> d"
  shows "Suc k \<le> d \<Longrightarrow>
    foldl (\<lambda>Z i. madd Z (matmul (smult (w d ^ i) (ket d i)) (dag (ket d i))))
       (matmul (ket d 0) (dag (ket d 0))) [1..<Suc k] =
    mk d d (\<lambda>i j. if j < Suc k \<and> i = j then w d ^ i else 0)"
proof (induction k)
  case 0
  then show ?case using assms by (auto simp: outer_ket intro!: mk_cong)
next
  case (Suc k)
  then show ?case using assms
    by (auto simp: outer_ket_smult madd_mk less_Suc_eq intro!: mk_cong)
qed

lemma discrete_Weyl_Z_mk:
  assumes "1 \<le> d"
  shows "discrete_Weyl_Z d = mk d d (\<lambda>i j. if i = j then w d ^ i else 0)"
proof -
  obtain k where k: "d = Suc k" using assms by (cases d) auto
  show ?thesis
    unfolding discrete_Weyl_Z_def
    using Z_loop[OF assms, of k] k by (auto intro!: mk_cong)
qed

lemma P_loop:
  assumes "1 \<le> d"
  shows "Suc k \<le> d \<Longrightarrow>
    foldl (\<lambda>P i. madd P (matmul (ket d (neg_mod i d)) (dag (ket d i))))
       (matmul (ket d 0) (dag (ket d 0))) [1..<Suc k] =
    mk d d (\<lambda>i j. if j < Suc k \<and> i = neg_mod j d then 1 else 0)"
proof (induction k)
  case 0
  then show ?case using assms by (auto simp: outer_ket neg_mod_def intro!: mk_cong)
next
  case (Suc k)
  then show ?case using assms
    by (auto simp: outer_ket madd_mk less_Suc_eq intro!: mk_cong)
qed

lemma flip_sign_mk:
  assumes "1 \<le> d"
  shows "flip_sign d = mk d d (\<lambda>i j. if i = neg_mod j d then 1 else 0)"
proof -
  obtain k where k: "d = Suc k" using assms by (cases d) auto
  show ?thesis
    unfolding flip_sign_def
    using P_loop[OF assms, of k] k by (auto intro!: mk_cong)
qed

subsection \<open>Powers of the shift and phase operators\<close>

lemma sum_if_eq_right:
  "(\<Sum>k<n::nat. (if k = a then f k else 0) * g k) = (if a < n then f a * g a else (0::complex))"
proof -
  have "(\<Sum>k<n. (if k = a then f k else 0) * g k) = (\<Sum>k<n. if k = a then f k * g k else 0)"
    by (rule sum.cong) auto
  also have "\<dots> = (if a \<in> {..<n} then f a * g a else 0)"
    by (rule sum.delta) simp
  finally show ?thesis by simp
qed

lemma sum_if_eq_left:
  "(\<Sum>k<n::nat. f k * (if k = a then g k else 0)) = (if a < n then f a * g a else (0::complex))"
proof -
  have "(\<Sum>k<n. f k * (if k = a then g k else 0)) = (\<Sum>k<n. if k = a then f k * g k else 0)"
    by (rule sum.cong) auto
  also have "\<dots> = (if a \<in> {..<n} then f a * g a else 0)"
    by (rule sum.delta) simp
  finally show ?thesis by simp
qed

lemma sum_if_eq_right':
  "(\<Sum>k<n::nat. (if a = k then f k else 0) * g k) = (if a < n then f a * g a else (0::complex))"
  using sum_if_eq_right[where n=n and a=a and f=f and g=g] by (simp add: eq_commute)

lemma sum_if_eq_left':
  "(\<Sum>k<n::nat. f k * (if a = k then g k else 0)) = (if a < n then f a * g a else (0::complex))"
  using sum_if_eq_left[where n=n and a=a and f=f and g=g] by (simp add: eq_commute)

lemmas sum_if_eq = sum_if_eq_left sum_if_eq_left' sum_if_eq_right sum_if_eq_right'

lemma eye_mk: "eye d = mk d d (\<lambda>i j. if i = j then 1 else 0)"
  by (simp add: eye_def)

lemma matrix_power_X:
  assumes "2 \<le> d"
  shows "matrix_power (discrete_Weyl_X d) k = mk d d (\<lambda>i j. if i = (j + k) mod d then 1 else 0)"
proof (induction k)
  case 0
  show ?case using assms by (auto simp: discrete_Weyl_X_mk eye_def intro!: mk_cong)
next
  case (Suc k)
  have "matmul (mk d d (\<lambda>i j. if i = (j + k) mod d then 1 else 0))
          (mk d d (\<lambda>i j. if i = (j + 1) mod d then 1 else 0)) =
        mk d d (\<lambda>i j. if i = (j + Suc k) mod d then 1 else 0)"
    using assms
    by (simp add: matmul_mk sum_if_eq_left mod_simps)
  then show ?case using assms Suc by (simp add: discrete_Weyl_X_mk)
qed

lemma matrix_power_Z:
  assumes "1 \<le> d"
  shows "matrix_power (discrete_Weyl_Z d) k = mk d d (\<lambda>i j. if i = j then w d ^ (i * k) else 0)"
proof (induction k)
  case 0
  show ?case using assms by (auto simp: discrete_Weyl_Z_mk eye_def intro!: mk_cong)
next
  case (Suc k)
  have "matmul (mk d d (\<lambda>i j. if i = j then w d ^ (i * k) else 0))
          (mk d d (\<lambda>i j. if i = j then w d ^ i else 0)) =
        mk d d (\<lambda>i j. if i = j then w d ^ (i * Suc k) else 0)"
    using assms
    by (simp add: matmul_mk sum_if_eq_left) (auto intro!: mk_cong simp: power_add)
  then show ?case using assms Suc by (simp add: discrete_Weyl_Z_mk)
qed

declare matrix_power.simps [simp del]

lemma neg_mod_less: "0 < d \<Longrightarrow> neg_mod j d < d"
  by (simp add: neg_mod_def nat_less_iff)

subsection \<open>The root of unity\<close>

lemma w_cis: "w d = cis (2 * pi / real d)"
  by (simp add: w_def cis_conv_exp mult_ac)

lemma w_pow_d: "0 < d \<Longrightarrow> w d ^ d = 1"
  by (simp add: w_cis DeMoivre)

lemma w_nonzero: "w d \<noteq> 0"
  by (simp add: w_def)

lemma norm_w: "cmod (w d) = 1"
  by (simp add: w_cis)

lemma cnj_w_pow: "cnj (w d ^ k) * w d ^ k = 1"
proof -
  have "cnj (w d ^ k) * w d ^ k = of_real ((cmod (w d ^ k))\<^sup>2)"
    by (metis complex_norm_square mult.commute)
  then show ?thesis by (simp add: norm_power norm_w)
qed

lemma w_pow_eq_1_iff:
  assumes "0 < d"
  shows "w d ^ k = 1 \<longleftrightarrow> d dvd k"
proof
  assume "d dvd k"
  then obtain m where "k = d * m" ..
  then show "w d ^ k = 1" using assms by (simp add: power_mult w_pow_d)
next
  assume "w d ^ k = 1"
  then have "cis (real k * (2 * pi / real d)) = 1"
    by (simp only: w_cis DeMoivre)
  then have "Re (cis (real k * (2 * pi / real d))) = 1"
    by simp
  then have "cos (real k * (2 * pi / real d)) = 1"
    by simp
  then obtain m :: int where m: "real k * (2 * pi / real d) = of_int m * (2 * pi)"
    by (auto simp: cos_one_2pi_int)
  then have "real k = of_int m * real d"
    using assms by (simp add: field_simps)
  then have "int k = m * int d"
    by (metis of_int_eq_iff of_int_mult of_int_of_nat_eq)
  then show "d dvd k"
    by (metis dvd_triv_right int_dvd_int_iff)
qed

lemma sum_w_pow:
  assumes "0 < d"
  shows "(\<Sum>b<d. w d ^ (b * m)) = (if d dvd m then of_nat d else 0)"
proof (cases "d dvd m")
  case True
  then have "\<And>b. w d ^ (b * m) = 1"
    using assms by (simp add: w_pow_eq_1_iff)
  then show ?thesis using True by simp
next
  case False
  then have ne: "w d ^ m \<noteq> 1" using assms by (simp add: w_pow_eq_1_iff)
  have "w d ^ (b * m) = (w d ^ m) ^ b" for b
    by (metis power_mult mult.commute)
  then have "(\<Sum>b<d. w d ^ (b * m)) = (\<Sum>b<d. (w d ^ m) ^ b)"
    by simp
  also have "\<dots> = ((w d ^ m) ^ d - 1) / (w d ^ m - 1)"
    using ne by (rule geometric_sum)
  also have "(w d ^ m) ^ d = 1"
    using assms by (metis power_mult mult.commute power_one w_pow_d)
  finally show ?thesis using False by simp
qed

section \<open>The Weyl commutation relation\<close>

lemma w_pow_mod: "0 < d \<Longrightarrow> w d ^ (k mod d) = w d ^ k"
proof -
  assume d: "0 < d"
  have "w d ^ k = w d ^ (d * (k div d) + k mod d)" by simp
  also have "\<dots> = (w d ^ d) ^ (k div d) * w d ^ (k mod d)"
    by (simp only: power_add power_mult)
  finally show ?thesis using d by (simp add: w_pow_d)
qed

lemma ZX_mk:
  assumes "2 \<le> d"
  shows "matmul (discrete_Weyl_Z d) (discrete_Weyl_X d) =
         mk d d (\<lambda>i j. if i = (j + 1) mod d then w d ^ (j + 1) else 0)"
  using assms
  by (simp add: discrete_Weyl_Z_mk discrete_Weyl_X_mk matmul_mk sum_if_eq)
     (auto intro!: mk_cong simp: w_pow_mod simp flip: power_Suc)

lemma XZ_mk:
  assumes "2 \<le> d"
  shows "matmul (discrete_Weyl_X d) (discrete_Weyl_Z d) =
         mk d d (\<lambda>i j. if i = (j + 1) mod d then w d ^ j else 0)"
  using assms
  by (simp add: discrete_Weyl_Z_mk discrete_Weyl_X_mk matmul_mk sum_if_eq)
     (auto intro!: mk_cong)



section \<open>The tensor folds on the empty index list\<close>

text \<open>
  Claim C9. \<open>generate_nQudit_X(d, [])\<close> and \<open>generate_nQudit_Z(d, [])\<close> return the
  scalar 1, the start value of the left fold, which is not a \<open>1 \<times> 1\<close> matrix; on a
  non-empty index list the result is the left fold of \<open>tensor\<close> over the powers of the
  operator, started from that scalar.
\<close>

theorem nQudit_empty_indices:
  "generate_nQudit_X d [] = Scalar 1 \<and> generate_nQudit_Z d [] = Scalar 1 \<and>
   generate_nQudit_X d [] \<noteq> Matrix [[1]] \<and> generate_nQudit_Z d [] \<noteq> Matrix [[1]] \<and>
   generate_nQudit_X d (index # indices) =
     foldl tensor (Scalar 1)
       (map (\<lambda>i. Matrix (matrix_power (discrete_Weyl_X d) i)) (index # indices)) \<and>
   generate_nQudit_Z d (index # indices) =
     foldl tensor (Scalar 1)
       (map (\<lambda>i. Matrix (matrix_power (discrete_Weyl_Z d) i)) (index # indices))"
  by (simp add: generate_nQudit_X_def generate_nQudit_Z_def foldl_map)

section \<open>The qudit CNOT gate\<close>

lemma kron_outer:
  assumes "0 < d" "has_shape d d M"
  shows "kron (matmul (ket d i) (dag (ket d i))) M =
         mk (d * d) (d * d)
           (\<lambda>r c. if r div d = i \<and> c div d = i then entry M (r mod d) (c mod d) else 0)"
proof -
  have "kron (matmul (ket d i) (dag (ket d i))) (mk d d (entry M)) =
         mk (d * d) (d * d)
           (\<lambda>r c. if r div d = i \<and> c div d = i then entry M (r mod d) (c mod d) else 0)"
    using assms(1) by (simp add: outer_ket kron_mk) (auto intro!: mk_cong)
  then show ?thesis using assms(2) by (simp add: mk_entry)
qed

lemma CNOT_loop:
  assumes "0 < d" "\<And>i. has_shape d d (W i)"
  shows "Suc k \<le> d \<Longrightarrow>
    foldl (\<lambda>C i. add_arr C (tensor (Matrix (matmul (ket d i) (dag (ket d i)))) (Matrix (W i))))
      (tensor (Matrix (matmul (ket d 0) (dag (ket d 0)))) (Matrix (W 0))) [1..<Suc k] =
    Matrix (mk (d * d) (d * d)
      (\<lambda>r c. if r div d = c div d \<and> r div d < Suc k
             then entry (W (r div d)) (r mod d) (c mod d) else 0))"
proof (induction k)
  case 0
  then show ?case using assms by (auto simp: kron_outer intro!: mk_cong)
next
  case (Suc k)
  then show ?case using assms
    by (auto simp: kron_outer madd_mk less_Suc_eq intro!: mk_cong)
qed

lemma has_shape_eye [simp]: "has_shape d d (eye d)"
  by (simp add: eye_def)

lemma has_shape_matrix_power_X: "2 \<le> d \<Longrightarrow> has_shape d d (matrix_power (discrete_Weyl_X d) k)"
  by (simp add: matrix_power_X)

lemma has_shape_flip_sign: "1 \<le> d \<Longrightarrow> has_shape d d (flip_sign d)"
  by (simp add: flip_sign_mk)

lemma CNOT_qudit_controlled:
  assumes "2 \<le> d"
  shows "CNOT_qudit d alt =
    Matrix (controlled d (\<lambda>i. if i = 0 then eye d
       else if alt then matrix_power (discrete_Weyl_X d) i
       else matmul (matrix_power (discrete_Weyl_X d) i) (flip_sign d)))"
proof -
  obtain k where k: "d = Suc k" using assms by (cases d) auto
  define W where "W = (\<lambda>i. if i = 0 then eye d
       else if alt then matrix_power (discrete_Weyl_X d) i
       else matmul (matrix_power (discrete_Weyl_X d) i) (flip_sign d))"
  have sh: "has_shape d d (W i)" for i
    using assms has_shape_matmul[OF has_shape_matrix_power_X[of d i] has_shape_flip_sign[of d]]
    by (auto simp: W_def has_shape_matrix_power_X)
  have body: "foldl (\<lambda>C i.
           (let Xi = matrix_power (discrete_Weyl_X d) i
            in if alt
               then add_arr C (tensor (Matrix (matmul (ket d i) (dag (ket d i)))) (Matrix Xi))
               else add_arr C (tensor (Matrix (matmul (ket d i) (dag (ket d i))))
                                 (Matrix (matmul Xi (flip_sign d))))))
           C0 [1..<d] =
        foldl (\<lambda>C i. add_arr C (tensor (Matrix (matmul (ket d i) (dag (ket d i)))) (Matrix (W i))))
           C0 [1..<d]" for C0
    by (rule foldl_cong) (auto simp: W_def Let_def)
  have "CNOT_qudit d alt =
     foldl (\<lambda>C i. add_arr C (tensor (Matrix (matmul (ket d i) (dag (ket d i)))) (Matrix (W i))))
      (tensor (Matrix (matmul (ket d 0) (dag (ket d 0)))) (Matrix (W 0))) [1..<d]"
    unfolding CNOT_qudit_def Let_def using body by (simp add: W_def Let_def)
  also have "\<dots> = Matrix (mk (d * d) (d * d)
      (\<lambda>r c. if r div d = c div d \<and> r div d < Suc k
             then entry (W (r div d)) (r mod d) (c mod d) else 0))"
    using CNOT_loop[of d W k] assms sh k by simp
  also have "\<dots> = Matrix (controlled d W)"
    unfolding controlled_def using k
    by (auto intro!: mk_cong simp: less_mult_imp_div_less)
  finally show ?thesis by (simp add: W_def)
qed

lemma block_sum_loop:
  assumes "0 < d" "\<And>i. has_shape d d (W i)"
  shows "k \<le> d \<Longrightarrow>
    foldl (\<lambda>C i. madd C (kron (matmul (ket d i) (dag (ket d i))) (W i)))
      (mk (d * d) (d * d) (\<lambda>r c. 0)) [0..<k] =
    mk (d * d) (d * d)
      (\<lambda>r c. if r div d = c div d \<and> r div d < k
             then entry (W (r div d)) (r mod d) (c mod d) else 0)"
proof (induction k)
  case 0
  show ?case by simp
next
  case (Suc k)
  then show ?case using assms
    by (auto simp: kron_outer madd_mk less_Suc_eq intro!: mk_cong)
qed

lemma block_sum_controlled:
  assumes "0 < d" "\<And>i. has_shape d d (W i)"
  shows "block_sum d W = controlled d W"
  unfolding block_sum_def controlled_def
  using block_sum_loop[OF assms, of d]
  by (auto intro!: mk_cong simp: less_mult_imp_div_less)

lemma div_mod_decomp_iff:
  "j < d \<Longrightarrow> (r div d = i \<and> r mod d = j) = (r = i * d + j)" for r :: nat
  by (auto simp: div_mult_mod_eq)

lemma kron_ket:
  assumes "0 < d" "j < d"
  shows "kron (ket d i) (ket d j) = mk (d * d) 1 (\<lambda>r c. if r = i * d + j then 1 else 0)"
  using assms
  by (simp add: ket_def kron_mk) (auto intro!: mk_cong simp flip: div_mod_decomp_iff)

lemma controlled_apply:
  assumes "0 < d" "i < d" "j < d" "t < d"
    and col: "\<And>a. a < d \<Longrightarrow> entry (W i) a j = (if a = t then 1 else 0)"
  shows "matmul_chk (controlled d W) (kron (ket d i) (ket d j)) = Inr (kron (ket d i) (ket d t))"
proof -
  have ij: "i * d + j < d * d"
  proof -
    have "i * d + j < i * d + d" using assms by simp
    also have "\<dots> = Suc i * d" by simp
    also have "\<dots> \<le> d * d" using assms(2) by (metis Suc_leI mult.commute mult_le_mono2)
    finally show ?thesis .
  qed
  have "matmul (controlled d W) (kron (ket d i) (ket d j)) =
        mk (d * d) 1 (\<lambda>r c. if r div d = i then entry (W i) (r mod d) j else 0)"
    using assms(1-3) ij
    by (simp add: controlled_def kron_ket matmul_mk sum_if_eq) (auto intro!: mk_cong)
  also have "\<dots> = mk (d * d) 1 (\<lambda>r c. if r = i * d + t then 1 else 0)"
    using assms(1-4) by (auto intro!: mk_cong simp: col simp flip: div_mod_decomp_iff)
  also have "\<dots> = kron (ket d i) (ket d t)"
    using assms by (simp add: kron_ket)
  finally show ?thesis
    using assms(1-3) by (simp add: matmul_chk_def controlled_def kron_ket)
qed

lemma Xi_P_mk:
  assumes "2 \<le> d"
  shows "matmul (matrix_power (discrete_Weyl_X d) i) (flip_sign d) =
         mk d d (\<lambda>a b. if a = (neg_mod b d + i) mod d then 1 else 0)"
  using assms by (simp add: matrix_power_X flip_sign_mk matmul_mk sum_if_eq neg_mod_less)

lemma neg_mod_add: "0 < d \<Longrightarrow> (neg_mod j d + i) mod d = nat ((int i - int j) mod int d)"
proof -
  assume d: "0 < d"
  have "int ((neg_mod j d + i) mod d) = ((- int j) mod int d + int i) mod int d"
    using d by (simp add: neg_mod_def zmod_int)
  also have "\<dots> = (int i - int j) mod int d"
    by (simp add: mod_simps)
  finally show ?thesis by (metis nat_int)
qed

lemma CNOT_qudit_apply_both:
  assumes "2 \<le> d" "1 \<le> i" "i < d" "j < d"
  shows "matmul_arr (CNOT_qudit d False) (tensor (Matrix (ket d i)) (Matrix (ket d j))) =
           Inr (kron (ket d i) (ket d (nat ((int i - int j) mod int d))))"
    and "matmul_arr (CNOT_qudit d True) (tensor (Matrix (ket d i)) (Matrix (ket d j))) =
           Inr (kron (ket d i) (ket d ((i + j) mod d)))"
proof -
  have t: "nat ((int i - int j) mod int d) < d"
    using assms by (simp add: nat_less_iff)
  show "matmul_arr (CNOT_qudit d False) (tensor (Matrix (ket d i)) (Matrix (ket d j))) =
           Inr (kron (ket d i) (ket d (nat ((int i - int j) mod int d))))"
    using assms t
    by (simp add: CNOT_qudit_controlled)
       (rule controlled_apply, auto simp: Xi_P_mk neg_mod_add)
  show "matmul_arr (CNOT_qudit d True) (tensor (Matrix (ket d i)) (Matrix (ket d j))) =
           Inr (kron (ket d i) (ket d ((i + j) mod d)))"
    using assms
    by (simp add: CNOT_qudit_controlled)
       (rule controlled_apply, auto simp: matrix_power_X ac_simps)
qed

lemma upt_4: "[0..<4] = [0, 1, 2, 3]"
  by (simp add: upt_rec)

lemma W2_entries:
  "entry (eye 2) 0 0 = 1" "entry (eye 2) 0 (Suc 0) = 0" "entry (eye 2) (Suc 0) 0 = 0" "entry (eye 2) (Suc 0) (Suc 0) = 1"
  by (simp_all add: eye_def)

lemma X2_entries:
  "entry (matrix_power (discrete_Weyl_X 2) (Suc 0)) 0 0 = 0"
  "entry (matrix_power (discrete_Weyl_X 2) (Suc 0)) 0 (Suc 0) = 1"
  "entry (matrix_power (discrete_Weyl_X 2) (Suc 0)) (Suc 0) 0 = 1"
  "entry (matrix_power (discrete_Weyl_X 2) (Suc 0)) (Suc 0) (Suc 0) = 0"
  by (simp_all add: matrix_power_X)

lemma XP2_entries:
  "entry (matmul (matrix_power (discrete_Weyl_X 2) (Suc 0)) (flip_sign 2)) 0 0 = 0"
  "entry (matmul (matrix_power (discrete_Weyl_X 2) (Suc 0)) (flip_sign 2)) 0 (Suc 0) = 1"
  "entry (matmul (matrix_power (discrete_Weyl_X 2) (Suc 0)) (flip_sign 2)) (Suc 0) 0 = 1"
  "entry (matmul (matrix_power (discrete_Weyl_X 2) (Suc 0)) (flip_sign 2)) (Suc 0) (Suc 0) = 0"
  by (simp_all add: Xi_P_mk neg_mod_def)

lemma CNOT_qudit_2_any:
  "CNOT_qudit 2 alt = Matrix [[1, 0, 0, 0], [0, 1, 0, 0], [0, 0, 0, 1], [0, 0, 1, 0]]"
  by (simp add: CNOT_qudit_controlled controlled_def mk_def upt_4 W2_entries X2_entries XP2_entries)

text \<open>
  Claim C5. For every \<open>d \<ge> 2\<close>, \<open>CNOT_qudit(d, alt=False)\<close> is the block sum
  \<open>\<Sum>\<^sub>i |i><i| \<otimes> W\<^sub>i\<close> with \<open>W\<^sub>0 = eye(d)\<close> and
  \<open>W\<^sub>i = X\<^sup>i @ flip_sign(d)\<close> for \<open>i \<ge> 1\<close>, so that for \<open>1 \<le> i < d\<close> and
  \<open>j < d\<close> the gate maps \<open>|i> \<otimes> |j>\<close> to \<open>|i> \<otimes> |(i - j) mod d>\<close>. With
  \<open>alt=True\<close>, \<open>W\<^sub>i = X\<^sup>i\<close> for \<open>i \<ge> 1\<close> and the gate maps
  \<open>|i> \<otimes> |j>\<close> to \<open>|i> \<otimes> |(i + j) mod d>\<close>.
\<close>

theorem CNOT_qudit_structure:
  assumes "2 \<le> d" "1 \<le> i" "i < d" "j < d"
  shows "CNOT_qudit d False =
           Matrix (block_sum d (\<lambda>i. if i = 0 then eye d
              else matmul (matrix_power (discrete_Weyl_X d) i) (flip_sign d))) \<and>
         matmul_arr (CNOT_qudit d False) (tensor (Matrix (ket d i)) (Matrix (ket d j))) =
           Inr (kron (ket d i) (ket d (nat ((int i - int j) mod int d)))) \<and>
         CNOT_qudit d True =
           Matrix (block_sum d (\<lambda>i. if i = 0 then eye d
              else matrix_power (discrete_Weyl_X d) i)) \<and>
         matmul_arr (CNOT_qudit d True) (tensor (Matrix (ket d i)) (Matrix (ket d j))) =
           Inr (kron (ket d i) (ket d ((i + j) mod d)))"
proof -
  have d: "0 < d" using assms(1) by simp
  have sF: "has_shape d d (if k = 0 then eye d
      else matmul (matrix_power (discrete_Weyl_X d) k) (flip_sign d))" for k
    using assms(1)
      has_shape_matmul[OF has_shape_matrix_power_X[of d k] has_shape_flip_sign[of d]]
    by simp
  have sT: "has_shape d d (if k = 0 then eye d else matrix_power (discrete_Weyl_X d) k)" for k
    using assms(1) by (simp add: has_shape_matrix_power_X)
  have F: "CNOT_qudit d False =
           Matrix (block_sum d (\<lambda>i. if i = 0 then eye d
              else matmul (matrix_power (discrete_Weyl_X d) i) (flip_sign d)))"
    using CNOT_qudit_controlled[OF assms(1), of False]
    by (simp add: block_sum_controlled[OF d sF] cong: if_cong)
  have T: "CNOT_qudit d True =
           Matrix (block_sum d (\<lambda>i. if i = 0 then eye d
              else matrix_power (discrete_Weyl_X d) i))"
    using CNOT_qudit_controlled[OF assms(1), of True]
    by (simp add: block_sum_controlled[OF d sT] cong: if_cong)
  show ?thesis
    using F T CNOT_qudit_apply_both[OF assms] by (simp only:)
qed

theorem CNOT_qudit_structure_witness:
  "(2::nat) \<le> 3 \<and> (1::nat) \<le> 1 \<and> (1::nat) < 3 \<and> (2::nat) < 3 \<and>
   CNOT_qudit 3 False =
     Matrix (block_sum 3 (\<lambda>i. if i = 0 then eye 3
        else matmul (matrix_power (discrete_Weyl_X 3) i) (flip_sign 3))) \<and>
   matmul_arr (CNOT_qudit 3 False) (tensor (Matrix (ket 3 1)) (Matrix (ket 3 2))) =
     Inr (kron (ket 3 1) (ket 3 2)) \<and>
   CNOT_qudit 3 True =
     Matrix (block_sum 3 (\<lambda>i. if i = 0 then eye 3
        else matrix_power (discrete_Weyl_X 3) i)) \<and>
   matmul_arr (CNOT_qudit 3 True) (tensor (Matrix (ket 3 1)) (Matrix (ket 3 2))) =
     Inr (kron (ket 3 1) (ket 3 0))"
proof -
  have h: "(2::nat) \<le> 3" "(1::nat) \<le> 1" "(1::nat) < 3" "(2::nat) < 3"
    by simp_all
  have e: "nat ((int 1 - int 2) mod int 3) = 2" "(1 + 2) mod 3 = (0::nat)"
    by simp_all
  show ?thesis
    using h CNOT_qudit_structure[OF h, unfolded e] by blast
qed

text \<open>
  Claim C6. At \<open>d = 2\<close> both variants of the qudit CNOT are the standard two-qubit
  CNOT matrix.
\<close>

theorem CNOT_qudit_qubit:
  "CNOT_qudit 2 False = Matrix [[1, 0, 0, 0], [0, 1, 0, 0], [0, 0, 0, 1], [0, 0, 1, 0]] \<and>
   CNOT_qudit 2 True = Matrix [[1, 0, 0, 0], [0, 1, 0, 0], [0, 0, 0, 1], [0, 0, 1, 0]]"
  by (simp add: CNOT_qudit_2_any)

section \<open>The single-qudit Weyl basis\<close>

lemma nth_concat_map_upt:
  "a < n * m \<Longrightarrow> concat (map (\<lambda>z. map (f z) [0..<m]) [0..<n]) ! a = f (a div m) (a mod m)"
proof (induction n)
  case 0
  then show ?case by simp
next
  case (Suc n)
  have len: "length (concat (map (\<lambda>z. map (f z) [0..<m]) [0..<n])) = n * m"
    by (induction n) simp_all
  show ?case
  proof (cases "a < n * m")
    case True
    then show ?thesis using Suc.IH len by (simp add: nth_append)
  next
    case False
    then have ge: "n * m \<le> a" by simp
    have m: "0 < m" using Suc.prems by (cases m) auto
    have lt: "a - n * m < m" using Suc.prems ge by simp
    have a: "a = n * m + (a - n * m)" using ge by simp
    have d: "a div m = n"
      using lt m by (subst a) simp
    have md: "a mod m = a - n * m"
      using lt by (subst a) simp
    show ?thesis using False len lt d md by (simp add: nth_append)
  qed
qed

lemma length_concat_map_upt:
  "length (concat (map (\<lambda>z. map (f z) [0..<m]) [0..<n])) = n * m"
  by (induction n) simp_all

lemma shift_inj:
  assumes "(k + x) mod d = (k' + x) mod d" "k < d" "k' < d"
  shows "k = (k'::nat)"
proof -
  have *: "k \<le> k' \<Longrightarrow> (k + x) mod d = (k' + x) mod d \<Longrightarrow> k' < d \<Longrightarrow> k = k'" for k k' :: nat
  proof -
    assume a: "k \<le> k'" "(k + x) mod d = (k' + x) mod d" "k' < d"
    then have "d dvd (k' + x) - (k + x)"
      by (metis mod_eq_dvd_iff_nat add_le_mono1)
    then have "d dvd k' - k" by simp
    then have "k' - k = 0" using a(3)
      by (meson dvd_imp_le less_imp_diff_less not_le zero_less_iff_neq_zero)
    then show "k = k'" using a(1) by simp
  qed
  show ?thesis
    using *[of k k'] *[of k' k] assms by (cases "k \<le> k'") auto
qed

lemma sum_mod_shift:
  fixes f :: "nat \<Rightarrow> complex"
  assumes "0 < d"
  shows "(\<Sum>k<d. f ((k + x) mod d)) = (\<Sum>k<d. f k)"
proof -
  have inj: "inj_on (\<lambda>k. (k + x) mod d) {..<d}"
    by (auto simp: inj_on_def dest: shift_inj)
  have sub: "(\<lambda>k. (k + x) mod d) ` {..<d} \<subseteq> {..<d}"
    using assms by auto
  have "(\<lambda>k. (k + x) mod d) ` {..<d} = {..<d}"
    using endo_inj_surj[OF _ sub inj] by simp
  then have "bij_betw (\<lambda>k. (k + x) mod d) {..<d} {..<d}"
    using inj by (simp add: bij_betw_def)
  then show ?thesis by (rule sum.reindex_bij_betw)
qed

lemma discrete_Weyl_mk:
  assumes "2 \<le> d"
  shows "discrete_Weyl d z x = mk d d (\<lambda>i j. if i = (j + x) mod d then w d ^ (i * z) else 0)"
  using assms
  by (simp add: discrete_Weyl_def matrix_power_X matrix_power_Z matmul_mk sum_if_eq)

lemma cnj_w: "0 < d \<Longrightarrow> cnj (w d) = w d ^ (d - 1)"
proof -
  assume d: "0 < d"
  have 1: "cnj (w d) * w d = 1" using cnj_w_pow[of d 1] by simp
  have "w d ^ (d - 1) * w d = w d ^ d"
    using d by (metis power_minus_mult)
  then have 2: "w d ^ (d - 1) * w d = 1" using d by (simp add: w_pow_d)
  from 1 2 show ?thesis using w_nonzero[of d]
    by (metis mult_cancel_right)
qed

lemma cnj_w_mult:
  assumes "0 < d"
  shows "cnj (w d ^ (m * z)) * w d ^ (m * z') = w d ^ (m * (z * (d - 1) + z'))"
proof -
  have "cnj (w d ^ (m * z)) = w d ^ ((d - 1) * (m * z))"
    using assms by (simp add: cnj_w power_mult)
  then show ?thesis
    by (simp add: power_add [symmetric] algebra_simps)
qed

lemma dvd_shift_iff:
  fixes d z z' :: nat
  assumes "z < d" "z' < d"
  shows "d dvd z * (d - 1) + z' \<longleftrightarrow> z = z'"
proof -
  have d: "0 < d" using assms by simp
  have n: "z * (d - 1) + z' + z = z * d + z'"
    using d by (cases d) simp_all
  have "int (z * (d - 1) + z') = int z * int d + (int z' - int z)"
    using arg_cong[OF n, of int] by simp
  then have "int d dvd int (z * (d - 1) + z') \<longleftrightarrow> int d dvd int z * int d + (int z' - int z)"
    by (simp only:)
  also have "\<dots> \<longleftrightarrow> int d dvd int z' - int z"
    by (metis dvd_add_right_iff dvd_triv_right)
  also have "\<dots> \<longleftrightarrow> int z' - int z = 0"
  proof
    assume dv: "int d dvd int z' - int z"
    show "int z' - int z = 0"
    proof (rule ccontr)
      assume "int z' - int z \<noteq> 0"
      then have "int d \<le> \<bar>int z' - int z\<bar>"
        using dv dvd_imp_le_int[of "int z' - int z" "int d"] by simp
      then show False using assms by linarith
    qed
  qed simp
  finally show ?thesis by (simp only: int_dvd_int_iff) auto
qed

lemma discrete_Weyl_unitary:
  assumes "2 \<le> d"
  shows "matmul (discrete_Weyl d z x) (dag (discrete_Weyl d z x)) = eye d"
proof -
  have d: "0 < d" using assms by simp
  have ent: "(\<Sum>k<d. (if i = (k + x) mod d then w d ^ (i * z) else 0) *
                  cnj (if j = (k + x) mod d then w d ^ (j * z) else 0)) =
             (if i = j then 1 else 0)" if "i < d" "j < d" for i j
  proof -
    define g where "g = (\<lambda>m. (if i = m then w d ^ (i * z) else 0) *
                  cnj (if j = m then w d ^ (j * z) else 0))"
    have one: "w d ^ (i * z) * cnj (w d ^ (i * z)) = 1"
      by (metis cnj_w_pow mult.commute)
    have "(\<Sum>k<d. (if i = (k + x) mod d then w d ^ (i * z) else 0) *
                  cnj (if j = (k + x) mod d then w d ^ (j * z) else 0)) =
          (\<Sum>k<d. g ((k + x) mod d))"
      by (simp add: g_def)
    also have "\<dots> = (\<Sum>m<d. g m)"
      using d by (rule sum_mod_shift)
    also have "\<dots> = (if i = j then w d ^ (i * z) * cnj (w d ^ (i * z)) else 0)"
      unfolding g_def using that by (simp add: sum_if_eq)
    also have "\<dots> = (if i = j then 1 else 0)"
      by (simp only: one)
    finally show ?thesis .
  qed
  show ?thesis
    using assms
    by (simp add: discrete_Weyl_mk dag_mk matmul_mk eye_def) (auto intro!: mk_cong simp: ent)
qed

lemma discrete_Weyl_trace:
  assumes "2 \<le> d" "z < d" "x < d" "z' < d" "x' < d"
  shows "Tr (matmul (dag (discrete_Weyl d z x)) (discrete_Weyl d z' x')) =
         (if z = z' \<and> x = x' then of_nat d else 0)"
proof -
  have d: "0 < d" using assms by simp
  have "Tr (matmul (dag (discrete_Weyl d z x)) (discrete_Weyl d z' x')) =
        (\<Sum>i<d. \<Sum>k<d. cnj (if k = (i + x) mod d then w d ^ (k * z) else 0) *
                     (if k = (i + x') mod d then w d ^ (k * z') else 0))"
    using assms(1) by (simp add: discrete_Weyl_mk dag_mk matmul_mk Tr_mk)
  also have "\<dots> = (\<Sum>i<d. cnj (if (i + x') mod d = (i + x) mod d
                          then w d ^ ((i + x') mod d * z) else 0) *
                     w d ^ ((i + x') mod d * z'))"
    using d by (simp add: sum_if_eq)
  finally have T: "Tr (matmul (dag (discrete_Weyl d z x)) (discrete_Weyl d z' x')) =
      (\<Sum>i<d. cnj (if (i + x') mod d = (i + x) mod d
                          then w d ^ ((i + x') mod d * z) else 0) *
                     w d ^ ((i + x') mod d * z'))" .
  show ?thesis
  proof (cases "x = x'")
    case False
    have "(i + x') mod d \<noteq> (i + x) mod d" for i
      using shift_inj[of x' i d x] assms False by (auto simp: add.commute)
    then show ?thesis using T False by simp
  next
    case True
    define g where "g = (\<lambda>m. cnj (w d ^ (m * z)) * w d ^ (m * z'))"
    have "Tr (matmul (dag (discrete_Weyl d z x)) (discrete_Weyl d z' x')) =
          (\<Sum>i<d. g ((i + x) mod d))"
      using T True by (simp add: g_def)
    also have "\<dots> = (\<Sum>m<d. g m)"
      using d by (rule sum_mod_shift)
    also have "\<dots> = (\<Sum>m<d. w d ^ (m * (z * (d - 1) + z')))"
      unfolding g_def by (rule sum.cong[OF refl]) (rule cnj_w_mult[OF d])
    also have "\<dots> = (if d dvd z * (d - 1) + z' then of_nat d else 0)"
      using d by (rule sum_w_pow)
    also have "\<dots> = (if z = z' then of_nat d else 0)"
      using dvd_shift_iff[OF assms(2) assms(4)] by (simp only:)
    finally show ?thesis using True by simp
  qed
qed

lemma discrete_Weyl_basis_nth:
  "a < d * d \<Longrightarrow> discrete_Weyl_basis d ! a = discrete_Weyl d (a div d) (a mod d)"
  unfolding discrete_Weyl_basis_def by (rule nth_concat_map_upt)

lemma div_mod_eq_iff: "(a div d = b div d \<and> a mod d = b mod d) = (a = b)" for a b d :: nat
  by (metis div_mult_mod_eq)

text \<open>
  Claim C7. For every \<open>d \<ge> 2\<close>, \<open>discrete_Weyl_basis(d)\<close> has exactly
  \<open>d\<^sup>2\<close> elements, each element \<open>M\<close> is unitary (\<open>M @ dag(M)\<close> is the
  identity), and the elements are pairwise trace-orthogonal:
  \<open>Tr(dag(B[a]) @ B[b])\<close> is 0 for \<open>a \<noteq> b\<close> and \<open>d\<close> for \<open>a = b\<close>.
\<close>

theorem discrete_Weyl_basis_properties:
  assumes "2 \<le> d" "a < d * d" "b < d * d"
  shows "length (discrete_Weyl_basis d) = d\<^sup>2 \<and>
         matmul (discrete_Weyl_basis d ! a) (dag (discrete_Weyl_basis d ! a)) = eye d \<and>
         Tr (matmul (dag (discrete_Weyl_basis d ! a)) (discrete_Weyl_basis d ! b)) =
           (if a = b then of_nat d else 0)"
proof -
  have d: "0 < d" using assms by simp
  have len: "length (discrete_Weyl_basis d) = d\<^sup>2"
    by (simp add: discrete_Weyl_basis_def length_concat_map_upt power2_eq_square)
  have lt: "a div d < d" "b div d < d" "a mod d < d" "b mod d < d"
    using assms d by (simp_all add: less_mult_imp_div_less)
  show ?thesis
    using assms lt len
    by (simp add: discrete_Weyl_basis_nth discrete_Weyl_unitary discrete_Weyl_trace div_mod_eq_iff)
qed

theorem discrete_Weyl_basis_properties_witness:
  "(2::nat) \<le> 3 \<and> (5::nat) < 3 * 3 \<and> (7::nat) < 3 * 3 \<and>
   length (discrete_Weyl_basis 3) = 3\<^sup>2 \<and>
   matmul (discrete_Weyl_basis 3 ! 5) (dag (discrete_Weyl_basis 3 ! 5)) = eye 3 \<and>
   Tr (matmul (dag (discrete_Weyl_basis 3 ! 5)) (discrete_Weyl_basis 3 ! 7)) = 0 \<and>
   Tr (matmul (dag (discrete_Weyl_basis 3 ! 5)) (discrete_Weyl_basis 3 ! 5)) = 3"
  using discrete_Weyl_basis_properties[of 3 5 7] discrete_Weyl_basis_properties[of 3 5 5]
  by simp

section \<open>The n-qudit Weyl basis\<close>

subsection \<open>The enumeration of index lists\<close>

lemma itertools_product_Suc:
  "itertools_product (replicate (Suc n) p) = product_step (itertools_product (replicate n p)) p"
proof -
  have "replicate (Suc n) p = replicate n p @ [p]"
    by (simp add: replicate_append_same)
  then show ?thesis
    by (simp only: itertools_product_def foldl_append foldl.simps)
qed

lemma itertools_product_0: "itertools_product (replicate 0 p) = [[]]"
  by (simp add: itertools_product_def)

lemma length_concat_map_const:
  "length (concat (map (\<lambda>x. map (g x) ys) xs)) = length xs * length ys"
  by (induction xs) simp_all

lemma length_itertools_product:
  "length (itertools_product (replicate n [0..<d])) = d ^ n"
  by (induction n)
     (simp_all only: itertools_product_0 itertools_product_Suc product_step_def
        length_concat_map_const, simp_all)

lemma nth_concat_map_list:
  assumes "a < length xs * m"
  shows "concat (map (\<lambda>x. map (g x) [0..<m]) xs) ! a = g (xs ! (a div m)) (a mod m)"
proof -
  have "map (\<lambda>x. map (g x) [0..<m]) xs =
        map (\<lambda>z. map (g (xs ! z)) [0..<m]) [0..<length xs]"
    by (rule nth_equalityI) simp_all
  then show ?thesis
    using nth_concat_map_upt[of a "length xs" m "\<lambda>z. g (xs ! z)"] assms by simp
qed

lemma tuple_at_Suc:
  assumes "0 < d"
  shows "tuple_at d (Suc n) k = tuple_at d n (k div d) @ [k mod d]"
proof -
  have "(k div d ^ (n - p)) mod d = ((k div d) div d ^ (n - 1 - p)) mod d" if "p < n" for p
  proof -
    have "n - p = Suc (n - 1 - p)" using that by simp
    then have "d ^ (n - p) = d * d ^ (n - 1 - p)" by simp
    then show ?thesis by (simp add: div_mult2_eq)
  qed
  then show ?thesis
    by (simp add: tuple_at_def)
qed

lemma nth_itertools_product:
  assumes "0 < d"
  shows "k < d ^ n \<Longrightarrow> itertools_product (replicate n [0..<d]) ! k = tuple_at d n k"
proof (induction n arbitrary: k)
  case 0
  then show ?case by (simp add: itertools_product_def tuple_at_def)
next
  case (Suc n)
  let ?S = "itertools_product (replicate n [0..<d])"
  have k: "k < length ?S * d"
    using Suc.prems by (simp add: length_itertools_product mult.commute)
  have kd: "k div d < d ^ n"
    using Suc.prems by (simp add: less_mult_imp_div_less mult.commute)
  have md: "k mod d < d" using assms by simp
  have "itertools_product (replicate (Suc n) [0..<d]) ! k = ?S ! (k div d) @ [k mod d]"
    unfolding itertools_product_Suc product_step_def
    using nth_concat_map_list[OF k, of "\<lambda>x y. x @ [y]"] by simp
  also have "\<dots> = tuple_at d n (k div d) @ [k mod d]"
    using Suc.IH[OF kd] by simp
  finally show ?case using assms by (simp add: tuple_at_Suc)
qed

subsection \<open>The tensor folds as matrices\<close>

lemma smult_one [simp]: "smult 1 A = A"
  by (simp add: smult_def)

lemma has_shape_kron:
  assumes "has_shape r c A" "has_shape r' c' B" "0 < r" "0 < r'"
  shows "has_shape (r * r') (c * c') (kron A B)"
  using assms by (simp add: kron_def has_shape_nrows has_shape_ncols)

lemma kron_one_left:
  assumes "has_shape r c B" "0 < r"
  shows "kron [[1]] B = B"
proof -
  have n: "nrows B = r" "ncols B = c" "nrows [[1]] = 1" "ncols [[1]] = 1"
    using assms by (simp_all add: has_shape_nrows has_shape_ncols) (simp_all add: nrows_def ncols_def)
  have e: "entry [[1]] 0 0 = 1" by (simp add: entry_def)
  have "kron [[1]] B = mk r c (entry B)"
    unfolding kron_def n by (auto intro!: mk_cong simp: e)
  then show ?thesis using assms by (simp add: mk_entry)
qed

lemma has_shape_matrix_power_Z: "1 \<le> d \<Longrightarrow> has_shape d d (matrix_power (discrete_Weyl_Z d) k)"
  by (simp add: matrix_power_Z)

lemma nfold_snoc: "nfold M (s @ [a]) = kron (nfold M s) (matrix_power M a)"
  by (simp add: nfold_def)

lemma has_shape_nfold:
  assumes "0 < d" "\<And>k. has_shape d d (matrix_power M k)"
  shows "has_shape (d ^ length s) (d ^ length s) (nfold M s)"
proof (induction s rule: rev_induct)
  case Nil
  show ?case by (simp add: nfold_def has_shape_def)
next
  case (snoc a s)
  show ?case
    using has_shape_kron[OF snoc assms(2)[of a]] assms(1)
    by (simp add: nfold_snoc mult.commute)
qed

lemma foldl_tensor_Matrix:
  "foldl (\<lambda>out index. tensor out (Matrix (matrix_power M index))) (Matrix A) s =
   Matrix (foldl (\<lambda>A index. kron A (matrix_power M index)) A s)"
  by (induction s arbitrary: A) simp_all

lemma tensor_fold_nfold:
  assumes "0 < d" "\<And>k. has_shape d d (matrix_power M k)" "s \<noteq> []"
  shows "foldl (\<lambda>out index. tensor out (Matrix (matrix_power M index))) (Scalar 1) s =
         Matrix (nfold M s)"
proof -
  obtain a rest where s: "s = a # rest" using assms(3) by (cases s) auto
  show ?thesis
    using kron_one_left[OF assms(2)[of a] assms(1)]
    by (simp add: s nfold_def foldl_tensor_Matrix)
qed

lemma generate_nQudit_X_nfold:
  "2 \<le> d \<Longrightarrow> s \<noteq> [] \<Longrightarrow> generate_nQudit_X d s = Matrix (nfold (discrete_Weyl_X d) s)"
  unfolding generate_nQudit_X_def
  by (rule tensor_fold_nfold[of d]) (simp_all add: has_shape_matrix_power_X)

lemma generate_nQudit_Z_nfold:
  "2 \<le> d \<Longrightarrow> s \<noteq> [] \<Longrightarrow> generate_nQudit_Z d s = Matrix (nfold (discrete_Weyl_Z d) s)"
  unfolding generate_nQudit_Z_def
  by (rule tensor_fold_nfold[of d]) (simp_all add: has_shape_matrix_power_Z)

lemma has_shape_nfold_X:
  "2 \<le> d \<Longrightarrow> has_shape (d ^ length s) (d ^ length s) (nfold (discrete_Weyl_X d) s)"
  by (rule has_shape_nfold) (simp_all add: has_shape_matrix_power_X)

lemma has_shape_nfold_Z:
  "2 \<le> d \<Longrightarrow> has_shape (d ^ length s) (d ^ length s) (nfold (discrete_Weyl_Z d) s)"
  by (rule has_shape_nfold) (simp_all add: has_shape_matrix_power_Z)

lemma matmul_chk_shape:
  "has_shape r m A \<Longrightarrow> has_shape m c B \<Longrightarrow> 0 < r \<Longrightarrow> matmul_chk A B = Inr (matmul A B)"
  by (simp add: matmul_chk_def has_shape_nrows has_shape_ncols)

lemma matmul_arr_ZX:
  assumes "2 \<le> d" "s1 \<noteq> []" "length s2 = length s1"
  shows "matmul_arr (generate_nQudit_Z d s1) (generate_nQudit_X d s2) =
         Inr (matmul (nfold (discrete_Weyl_Z d) s1) (nfold (discrete_Weyl_X d) s2))"
proof -
  have "s2 \<noteq> []" using assms by auto
  then show ?thesis
    using assms has_shape_nfold_Z[OF assms(1), of s1] has_shape_nfold_X[OF assms(1), of s2]
    by (simp add: generate_nQudit_X_nfold generate_nQudit_Z_nfold matmul_chk_shape)
qed

lemma matmul_arr_XZ:
  assumes "2 \<le> d" "s1 \<noteq> []" "length s2 = length s1"
  shows "matmul_arr (generate_nQudit_X d s1) (generate_nQudit_Z d s2) =
         Inr (matmul (nfold (discrete_Weyl_X d) s1) (nfold (discrete_Weyl_Z d) s2))"
proof -
  have "s2 \<noteq> []" using assms by auto
  then show ?thesis
    using assms has_shape_nfold_X[OF assms(1), of s1] has_shape_nfold_Z[OF assms(1), of s2]
    by (simp add: generate_nQudit_X_nfold generate_nQudit_Z_nfold matmul_chk_shape)
qed

subsection \<open>The loops of the n-qudit basis\<close>

lemma itertools_product_tuples:
  assumes "0 < d"
  shows "itertools_product (replicate n [0..<d]) = map (tuple_at d n) [0..<d ^ n]"
  by (rule nth_equalityI) (simp_all add: length_itertools_product nth_itertools_product[OF assms])

lemma length_tuple_at [simp]: "length (tuple_at d n k) = n"
  by (simp add: tuple_at_def)

lemma basis_inner_ok:
  assumes "\<And>s2. s2 \<in> set ss \<Longrightarrow>
     matmul_arr (generate_nQudit_Z d s1) (generate_nQudit_X d s2) = Inr (g s1 s2)"
  shows "basis_inner d s1 ss B = Inr (B @ map (g s1) ss)"
  using assms by (induction ss arbitrary: B) simp_all

lemma basis_outer_ok:
  assumes "\<And>s1 s2. s1 \<in> set ss \<Longrightarrow> s2 \<in> set S \<Longrightarrow>
     matmul_arr (generate_nQudit_Z d s1) (generate_nQudit_X d s2) = Inr (g s1 s2)"
  shows "basis_outer d S ss B = Inr (B @ concat (map (\<lambda>s1. map (g s1) S) ss))"
  using assms
proof (induction ss arbitrary: B)
  case Nil
  show ?case by simp
next
  case (Cons s1 ss)
  have "basis_inner d s1 S B = Inr (B @ map (g s1) S)"
    by (rule basis_inner_ok) (simp add: Cons.prems)
  then show ?case using Cons by simp
qed

lemma nQudit_discrete_Weyl_basis_closed:
  assumes "2 \<le> d" "1 \<le> n"
  shows "nQudit_discrete_Weyl_basis d n =
    Inr (concat (map (\<lambda>a. map (\<lambda>b.
       matmul (nfold (discrete_Weyl_Z d) (tuple_at d n a)) (nfold (discrete_Weyl_X d) (tuple_at d n b)))
       [0..<d ^ n]) [0..<d ^ n]))"
proof -
  have d: "0 < d" using assms by simp
  let ?S = "map (tuple_at d n) [0..<d ^ n]"
  let ?g = "\<lambda>s1 s2. matmul (nfold (discrete_Weyl_Z d) s1) (nfold (discrete_Weyl_X d) s2)"
  have ok: "matmul_arr (generate_nQudit_Z d s1) (generate_nQudit_X d s2) = Inr (?g s1 s2)"
    if "s1 \<in> set ?S" "s2 \<in> set ?S" for s1 s2
  proof -
    have "length s1 = n" "length s2 = n" using that by auto
    then show ?thesis using assms by (intro matmul_arr_ZX) auto
  qed
  have "basis_outer d ?S ?S [] = Inr ([] @ concat (map (\<lambda>s1. map (?g s1) ?S) ?S))"
    by (rule basis_outer_ok) (rule ok)
  then show ?thesis
    by (simp add: nQudit_discrete_Weyl_basis_def itertools_product_tuples[OF d] comp_def)
qed

text \<open>
  Claim C8. For every \<open>d \<ge> 2\<close> and \<open>n \<ge> 1\<close>, \<open>nQudit_discrete_Weyl_basis(d, n)\<close>
  returns a sequence of exactly \<open>d\<^sup>2\<^sup>n\<close> operators. The list \<open>S\<close> it enumerates is
  \<open>[0, d)\<^sup>n\<close> in \<open>itertools.product\<close> order (lexicographic, the rightmost element varying
  fastest), the first tuple \<open>s1\<close> is the outer loop, and the entry for the pair
  \<open>(s1, s2)\<close> is \<open>generate_nQudit_Z(d, s1) @ generate_nQudit_X(d, s2)\<close>: the Z-tensor is
  the left factor.
\<close>

theorem nQudit_discrete_Weyl_basis_enumeration:
  assumes "2 \<le> d" "1 \<le> n" "a < d ^ n" "b < d ^ n"
  shows "itertools_product (replicate n [0..<d]) = map (tuple_at d n) [0..<d ^ n] \<and>
         (case nQudit_discrete_Weyl_basis d n of
            Inl e \<Rightarrow> False
          | Inr B \<Rightarrow>
              length B = d ^ (2 * n) \<and>
              matmul_arr (generate_nQudit_Z d (tuple_at d n a)) (generate_nQudit_X d (tuple_at d n b)) =
                Inr (B ! (a * d ^ n + b)))"
proof -
  have d: "0 < d" using assms by simp
  have N: "0 < d ^ n" using d by simp
  let ?g = "\<lambda>a b. matmul (nfold (discrete_Weyl_Z d) (tuple_at d n a))
                        (nfold (discrete_Weyl_X d) (tuple_at d n b))"
  let ?B = "concat (map (\<lambda>a. map (?g a) [0..<d ^ n]) [0..<d ^ n])"
  have B: "nQudit_discrete_Weyl_basis d n = Inr ?B"
    using assms(1,2) by (rule nQudit_discrete_Weyl_basis_closed)
  have len: "length ?B = d ^ (2 * n)"
    by (simp add: length_concat_map_upt power2_eq_square power_mult mult.commute)
  have idx: "a * d ^ n + b < d ^ n * d ^ n"
  proof -
    have "a * d ^ n + b < a * d ^ n + d ^ n" using assms(4) by simp
    also have "\<dots> = Suc a * d ^ n" by simp
    also have "\<dots> \<le> d ^ n * d ^ n"
      using assms(3) by (metis Suc_leI mult.commute mult_le_mono2)
    finally show ?thesis .
  qed
  have dv: "(a * d ^ n + b) div d ^ n = a" "(a * d ^ n + b) mod d ^ n = b"
    using assms(4) N by simp_all
  have nth: "?B ! (a * d ^ n + b) = ?g a b"
    using nth_concat_map_upt[OF idx, of ?g] by (simp only: dv)
  have ne: "tuple_at d n a \<noteq> []"
    using assms(2) length_tuple_at[of d n a] by (metis length_0_conv not_one_le_zero)
  have "matmul_arr (generate_nQudit_Z d (tuple_at d n a)) (generate_nQudit_X d (tuple_at d n b)) =
        Inr (?g a b)"
    using assms(1) ne by (intro matmul_arr_ZX) auto
  then show ?thesis
    using B len nth itertools_product_tuples[OF d, of n] by simp
qed

theorem nQudit_discrete_Weyl_basis_enumeration_witness:
  "(2::nat) \<le> 3 \<and> (1::nat) \<le> 2 \<and> (5::nat) < 3 ^ 2 \<and> (7::nat) < 3 ^ 2 \<and>
   itertools_product (replicate 2 [0..<3]) = map (tuple_at 3 2) [0..<3 ^ 2] \<and>
   tuple_at 3 2 5 = [1, 2] \<and> tuple_at 3 2 7 = [2, 1] \<and>
   (case nQudit_discrete_Weyl_basis 3 2 of
      Inl e \<Rightarrow> False
    | Inr B \<Rightarrow>
        length B = 3 ^ (2 * 2) \<and>
        matmul_arr (generate_nQudit_Z 3 (tuple_at 3 2 5)) (generate_nQudit_X 3 (tuple_at 3 2 7)) =
          Inr (B ! (5 * 3 ^ 2 + 7)))"
proof -
  have h: "(2::nat) \<le> 3" "(1::nat) \<le> 2" "(5::nat) < 3 ^ 2" "(7::nat) < 3 ^ 2"
    by simp_all
  have t: "tuple_at 3 2 5 = [1, 2]" "tuple_at 3 2 7 = [2, 1]"
    by (simp_all add: tuple_at_def upt_rec)
  show ?thesis
    using h t nQudit_discrete_Weyl_basis_enumeration[OF h] by blast
qed

section \<open>Evaluation of small matrices\<close>

lemma upt_2: "[0..<2] = [0, 1]"
  by (simp add: upt_rec)

lemma eye_2: "eye 2 = [[1, 0], [0, 1]]"
  by (simp add: eye_def mk_def upt_2)

lemma lessThan_2: "{..<2::nat} = {0, 1}"
  by auto

lemma w_2: "w 2 = -1"
  by (simp add: w_cis)

lemma nfold_single:
  assumes "has_shape r c (matrix_power M a)" "0 < r"
  shows "nfold M [a] = matrix_power M a"
  using kron_one_left[OF assms] by (simp add: nfold_def)

lemma matmul_2x2:
  "matmul [[a, b], [c, d]] [[e, f], [g, h]] =
   [[a * e + b * g, a * f + b * h], [c * e + d * g, c * f + d * h]]"
  by (simp add: matmul_def mk_def nrows_def ncols_def entry_def upt_2 lessThan_2)

lemma dag_2x2: "dag [[a, b], [c, d]] = [[cnj a, cnj c], [cnj b, cnj d]]"
  by (simp add: dag_def mk_def nrows_def ncols_def entry_def upt_2)

lemma Tr_2x2: "Tr [[a, b], [c, d]] = a + d"
  by (simp add: Tr_def nrows_def ncols_def entry_def lessThan_2)


section \<open>Pauli-Z tensor products: bits and the error string\<close>

lemma kron_2x2:
  "kron [[a, b], [c, d]] [[e, f], [g, h]] =
     [[a * e, a * f, b * e, b * f], [a * g, a * h, b * g, b * h],
      [c * e, c * f, d * e, d * f], [c * g, c * h, d * g, d * h]]"
proof -
  have n: "nrows [[a, b], [c, d]] = 2" "ncols [[a, b], [c, d]] = 2"
    "nrows [[e, f], [g, h]] = 2" "ncols [[e, f], [g, h]] = 2"
    by (simp_all add: nrows_def ncols_def)
  have m: "(2::nat) * 2 = 4" by simp
  show ?thesis
    unfolding kron_def n m by (simp add: mk_def upt_4 entry_def)
qed

lemma pauli_loop_bits:
  "list_all (\<lambda>x. x = 0 \<or> x = 1) xs \<Longrightarrow>
   pauli_loop out calls xs =
     (Arr (foldl tensor out
        (map (\<lambda>b. Matrix (if b = 0 then [[1, 0], [0, 1]] else [[1, 0], [0, -1]])) xs)),
      calls + length xs)"
  by (induction xs arbitrary: out calls) (auto simp: eye_2 Sz_def)

lemma pauli_loop_stop:
  "list_all (\<lambda>x. x = 0 \<or> x = 1) pre \<Longrightarrow> bad \<noteq> 0 \<Longrightarrow> bad \<noteq> 1 \<Longrightarrow>
   pauli_loop out calls (pre @ bad # rest) =
     (Str ''Error: Indices must be bits, either 0 or 1!'', calls + length pre)"
  by (induction pre arbitrary: out calls) auto

lemma first_bad_split:
  "\<not> list_all P xs \<Longrightarrow> \<exists>pre bad rest. xs = pre @ bad # rest \<and> list_all P pre \<and> \<not> P bad"
proof (induction xs)
  case Nil
  then show ?case by simp
next
  case (Cons x xs)
  show ?case
  proof (cases "P x")
    case True
    with Cons obtain pre bad rest where "xs = pre @ bad # rest" "list_all P pre" "\<not> P bad"
      by auto
    then have "x # xs = (x # pre) @ bad # rest \<and> list_all P (x # pre) \<and> \<not> P bad"
      using True by simp
    then show ?thesis by blast
  next
    case False
    then have "x # xs = [] @ x # xs \<and> list_all P [] \<and> \<not> P x" by simp
    then show ?thesis by blast
  qed
qed

text \<open>
  Claim C10. On a list of bits \<open>generate_nQubit_Pauli_Z\<close> returns the left-fold tensor
  product, started from the scalar 1, of the factors \<open>[[1, 0], [0, 1]]\<close> (the identity,
  for 0) and \<open>[[1, 0], [0, -1]]\<close> (Pauli-Z, for 1), with one call of \<open>tensor\<close> for each
  index. On an index list with an element that is neither 0 nor 1 it returns the string
  \<open>Error: Indices must be bits, either 0 or 1!\<close> as its value (it raises nothing), and it
  returns at the first such element: when the bits \<open>pre\<close> precede the first invalid
  element, the run has made exactly \<open>length pre\<close> calls of \<open>tensor\<close>, so no factor at
  or after that element is processed, whatever follows it.
\<close>

theorem generate_nQubit_Pauli_Z_result:
  "(list_all (\<lambda>x. x = 0 \<or> x = 1) indices \<longrightarrow>
      generate_nQubit_Pauli_Z indices =
        Arr (foldl tensor (Scalar 1)
          (map (\<lambda>b. Matrix (if b = 0 then [[1, 0], [0, 1]] else [[1, 0], [0, -1]])) indices)) \<and>
      tensor_calls indices = length indices) \<and>
   ((\<exists>x \<in> set indices. x \<noteq> 0 \<and> x \<noteq> 1) \<longrightarrow>
      generate_nQubit_Pauli_Z indices = Str ''Error: Indices must be bits, either 0 or 1!'') \<and>
   (list_all (\<lambda>x. x = 0 \<or> x = 1) pre \<and> bad \<noteq> 0 \<and> bad \<noteq> 1 \<longrightarrow>
      generate_nQubit_Pauli_Z (pre @ bad # rest) =
        Str ''Error: Indices must be bits, either 0 or 1!'' \<and>
      tensor_calls (pre @ bad # rest) = length pre)"
proof (intro conjI impI)
  assume b: "list_all (\<lambda>x. x = 0 \<or> x = 1) indices"
  show "generate_nQubit_Pauli_Z indices =
        Arr (foldl tensor (Scalar 1)
          (map (\<lambda>b. Matrix (if b = 0 then [[1, 0], [0, 1]] else [[1, 0], [0, -1]])) indices))"
    by (simp add: generate_nQubit_Pauli_Z_def generate_nQubit_Pauli_Z_run_def
        pauli_loop_bits[OF b])
  show "tensor_calls indices = length indices"
    by (simp add: tensor_calls_def generate_nQubit_Pauli_Z_run_def pauli_loop_bits[OF b])
next
  assume "\<exists>x \<in> set indices. x \<noteq> 0 \<and> x \<noteq> 1"
  then have "\<not> list_all (\<lambda>x. x = 0 \<or> x = 1) indices"
    by (auto simp: list_all_iff)
  then obtain p b r where
    s: "indices = p @ b # r" "list_all (\<lambda>x. x = 0 \<or> x = 1) p" "b \<noteq> 0" "b \<noteq> 1"
    using first_bad_split[of "\<lambda>x. x = 0 \<or> x = 1" indices] by auto
  show "generate_nQubit_Pauli_Z indices = Str ''Error: Indices must be bits, either 0 or 1!''"
    by (simp add: generate_nQubit_Pauli_Z_def generate_nQubit_Pauli_Z_run_def s(1)
        pauli_loop_stop[OF s(2,3,4)])
next
  assume "list_all (\<lambda>x. x = 0 \<or> x = 1) pre \<and> bad \<noteq> 0 \<and> bad \<noteq> 1"
  then have h: "list_all (\<lambda>x. x = 0 \<or> x = 1) pre" "bad \<noteq> 0" "bad \<noteq> 1"
    by simp_all
  show "generate_nQubit_Pauli_Z (pre @ bad # rest) =
        Str ''Error: Indices must be bits, either 0 or 1!''"
    by (simp add: generate_nQubit_Pauli_Z_def generate_nQubit_Pauli_Z_run_def
        pauli_loop_stop[OF h])
  show "tensor_calls (pre @ bad # rest) = length pre"
    by (simp add: tensor_calls_def generate_nQubit_Pauli_Z_run_def pauli_loop_stop[OF h])
qed

theorem generate_nQubit_Pauli_Z_result_witness:
  "generate_nQubit_Pauli_Z [0, 1] =
     Arr (Matrix [[1, 0, 0, 0], [0, -1, 0, 0], [0, 0, 1, 0], [0, 0, 0, -1]]) \<and>
   tensor_calls [0, 1] = 2 \<and>
   generate_nQubit_Pauli_Z [0, 2, 1] = Str ''Error: Indices must be bits, either 0 or 1!'' \<and>
   generate_nQubit_Pauli_Z ([1] @ 5 # [0, 7]) =
     Str ''Error: Indices must be bits, either 0 or 1!'' \<and>
   tensor_calls ([1] @ 5 # [0, 7]) = 1"
  using generate_nQubit_Pauli_Z_result[of "[0, 1]" "[]" 2 "[]"]
        generate_nQubit_Pauli_Z_result[of "[0, 2, 1]" "[1]" 5 "[0, 7]"]
  by (simp add: smult_def kron_2x2)

section \<open>The covariance matrix\<close>

subsection \<open>The quadrature dictionary\<close>

lemma int_flatten_ket:
  assumes "0 < n"
  shows "int_flatten (dag (ket n c)) = unit_list n c"
proof -
  have "dag (ket n c) = mk 1 n (\<lambda>i j. cnj (if j = c then 1 else 0))"
    using assms by (simp add: ket_def dag_mk)
  then show ?thesis
    by (simp add: int_flatten_def mk_def unit_list_def)
qed

lemma length_unit_list [simp]: "length (unit_list n c) = n"
  by (simp add: unit_list_def)

lemma quadratures_loop:
  assumes "0 < n"
  shows "\<exists>S. foldl (quadratures_step d n) (Map.empty, 0) (map (\<lambda>k. 1 + 2 * k) [0..<m]) = (S, m) \<and>
     (\<forall>k<m. S (2 * k + 1) = Some (generate_nQudit_X d (unit_list n k)) \<and>
            S (2 * k + 2) = Some (generate_nQudit_Z d (unit_list n k)))"
proof (induction m)
  case 0
  show ?case by simp
next
  case (Suc m)
  then obtain S where S:
    "foldl (quadratures_step d n) (Map.empty, 0) (map (\<lambda>k. 1 + 2 * k) [0..<m]) = (S, m)"
    "\<And>k. k < m \<Longrightarrow> S (2 * k + 1) = Some (generate_nQudit_X d (unit_list n k)) \<and>
            S (2 * k + 2) = Some (generate_nQudit_Z d (unit_list n k))"
    by blast
  let ?S' = "(S(1 + 2 * m \<mapsto> generate_nQudit_X d (unit_list n m)))
               (1 + 2 * m + 1 \<mapsto> generate_nQudit_Z d (unit_list n m))"
  have step: "foldl (quadratures_step d n) (Map.empty, 0) (map (\<lambda>k. 1 + 2 * k) [0..<Suc m]) =
        (?S', Suc m)"
    using assms S(1) by (simp add: quadratures_step_def Let_def int_flatten_ket)
  have "\<forall>k<Suc m. ?S' (2 * k + 1) = Some (generate_nQudit_X d (unit_list n k)) \<and>
            ?S' (2 * k + 2) = Some (generate_nQudit_Z d (unit_list n k))"
  proof (intro allI impI)
    fix k assume "k < Suc m"
    then consider "k < m" | "k = m" by linarith
    then show "?S' (2 * k + 1) = Some (generate_nQudit_X d (unit_list n k)) \<and>
            ?S' (2 * k + 2) = Some (generate_nQudit_Z d (unit_list n k))"
    proof cases
      case 1
      then have "2 * k + 1 \<noteq> 1 + 2 * m" "2 * k + 1 \<noteq> 1 + 2 * m + 1"
        "2 * k + 2 \<noteq> 1 + 2 * m" "2 * k + 2 \<noteq> 1 + 2 * m + 1" by simp_all
      then show ?thesis using S(2)[OF 1] by (simp only: fun_upd_apply if_False)
    next
      case 2
      then show ?thesis by simp
    qed
  qed
  then show ?case using step by blast
qed

lemma nQudit_quadratures_lookup:
  assumes "0 < n" "k < n"
  shows "nQudit_quadratures d n (2 * k + 1) = Some (generate_nQudit_X d (unit_list n k))"
    and "nQudit_quadratures d n (2 * k + 2) = Some (generate_nQudit_Z d (unit_list n k))"
  using quadratures_loop[OF assms(1), of d n] assms(2)
  by (auto simp: nQudit_quadratures_def)

subsection \<open>The loops that fill the covariance matrix\<close>

lemma row_fill:
  assumes "has_shape r c V" "i < r"
  shows "m \<le> c \<Longrightarrow>
    foldl (\<lambda>V j. V[i := (V ! i)[j := f j]]) V [0..<m] =
    V[i := map (\<lambda>j. if j < m then f j else V ! i ! j) [0..<c]]"
proof (induction m)
  case 0
  have "length (V ! i) = c"
    using assms by (simp add: has_shape_def list_all_length)
  then have "map (\<lambda>j. V ! i ! j) [0..<c] = V ! i"
    by (metis map_nth)
  then show ?case by simp
next
  case (Suc m)
  have len: "i < length V" using assms by (simp add: has_shape_def)
  have "(map (\<lambda>j. if j < m then f j else V ! i ! j) [0..<c])[m := f m] =
        map (\<lambda>j. if j < Suc m then f j else V ! i ! j) [0..<c]"
    using Suc.prems by (intro nth_equalityI) (auto simp: nth_list_update less_Suc_eq)
  then show ?case using Suc len by simp
qed

lemma fill_all:
  assumes "has_shape r c V"
  shows "m \<le> r \<Longrightarrow>
    foldl (\<lambda>V i. foldl (\<lambda>V j. V[i := (V ! i)[j := f i j]]) V [0..<c]) V [0..<m] =
    map (\<lambda>i. if i < m then map (f i) [0..<c] else V ! i) [0..<r]"
proof (induction m)
  case 0
  have "length V = r" using assms by (simp add: has_shape_def)
  then have "map (\<lambda>i. V ! i) [0..<r] = V" by (metis map_nth)
  then show ?case by simp
next
  case (Suc m)
  let ?W = "map (\<lambda>i. if i < m then map (f i) [0..<c] else V ! i) [0..<r]"
  have W: "has_shape r c ?W"
    using assms by (auto simp: has_shape_def list_all_length)
  have m: "m < r" using Suc.prems by simp
  have "foldl (\<lambda>V j. V[m := (V ! m)[j := f m j]]) ?W [0..<c] =
        ?W[m := map (\<lambda>j. if j < c then f m j else ?W ! m ! j) [0..<c]]"
    using row_fill[OF W m, of c "f m"] by simp
  also have "\<dots> = map (\<lambda>i. if i < Suc m then map (f i) [0..<c] else V ! i) [0..<r]"
    using m by (intro nth_equalityI) (auto simp: nth_list_update less_Suc_eq)
  finally show ?case using Suc by simp
qed

lemma cov_inner_ok:
  assumes "\<And>j. j \<in> set js \<Longrightarrow> cov_entry X S i j = Inr (f j)"
  shows "cov_inner X S i js V = Inr (foldl (\<lambda>V j. V[i := (V ! i)[j := f j]]) V js)"
  using assms by (induction js arbitrary: V) simp_all

lemma cov_outer_ok:
  assumes "\<And>i j. i \<in> set is \<Longrightarrow> j < 2 * n \<Longrightarrow> cov_entry X S i j = Inr (f i j)"
  shows "cov_outer X S n is V =
    Inr (foldl (\<lambda>V i. foldl (\<lambda>V j. V[i := (V ! i)[j := f i j]]) V [0..<2 * n]) V is)"
  using assms
proof (induction "is" arbitrary: V)
  case Nil
  show ?case by simp
next
  case (Cons i "is")
  have "cov_inner X S i [0..<2 * n] V =
        Inr (foldl (\<lambda>V j. V[i := (V ! i)[j := f i j]]) V [0..<2 * n])"
    by (rule cov_inner_ok) (simp add: Cons.prems)
  then show ?case using Cons by simp
qed

lemma cov_matrix_closed:
  assumes "\<And>i j. i < 2 * n \<Longrightarrow> j < 2 * n \<Longrightarrow>
     cov_entry X (nQudit_quadratures d n) i j = Inr (f i j)"
  shows "nQudit_cov_matrix X d n = Inr (mk (2 * n) (2 * n) f)"
proof -
  have "cov_outer X (nQudit_quadratures d n) n [0..<2 * n] (mk (2 * n) (2 * n) (\<lambda>i j. 0)) =
    Inr (foldl (\<lambda>V i. foldl (\<lambda>V j. V[i := (V ! i)[j := f i j]]) V [0..<2 * n])
       (mk (2 * n) (2 * n) (\<lambda>i j. 0)) [0..<2 * n])"
    by (rule cov_outer_ok) (simp add: assms)
  also have "foldl (\<lambda>V i. foldl (\<lambda>V j. V[i := (V ! i)[j := f i j]]) V [0..<2 * n])
       (mk (2 * n) (2 * n) (\<lambda>i j. 0)) [0..<2 * n] =
     map (\<lambda>i. if i < 2 * n then map (f i) [0..<2 * n] else mk (2 * n) (2 * n) (\<lambda>i j. 0) ! i)
       [0..<2 * n]"
    by (rule fill_all) simp_all
  also have "\<dots> = mk (2 * n) (2 * n) f"
    by (simp add: mk_def)
  finally show ?thesis by (simp add: nQudit_cov_matrix_def)
qed

subsection \<open>The entries of the covariance matrix\<close>

lemma unit_list_nonempty: "0 < n \<Longrightarrow> unit_list n c \<noteq> []"
  by (simp add: unit_list_def)

lemma nQudit_quadratures_key:
  assumes "2 \<le> d" "0 < n" "i < 2 * n"
  shows "nQudit_quadratures d n (i + 1) = Some (Matrix (quadrature_matrix d n i))"
proof (cases "even i")
  case True
  then obtain k where k: "i = 2 * k" by (auto elim: evenE)
  then have "k < n" using assms(3) by simp
  then show ?thesis
    using nQudit_quadratures_lookup(1)[OF assms(2), of k d] assms(1,2) True k
    by (simp add: quadrature_matrix_def generate_nQudit_X_nfold unit_list_nonempty)
next
  case False
  then obtain k where k: "i = 2 * k + 1" by (auto elim: oddE)
  then have "k < n" using assms(3) by simp
  then show ?thesis
    using nQudit_quadratures_lookup(2)[OF assms(2), of k d] assms(1,2) False k
    by (simp add: quadrature_matrix_def generate_nQudit_Z_nfold unit_list_nonempty)
qed

lemma has_shape_quadrature_matrix:
  "2 \<le> d \<Longrightarrow> has_shape (d ^ n) (d ^ n) (quadrature_matrix d n i)"
  using has_shape_nfold_X[of d "unit_list n (i div 2)"] has_shape_nfold_Z[of d "unit_list n (i div 2)"]
  by (simp add: quadrature_matrix_def)

lemma has_shape_dag: "has_shape r c A \<Longrightarrow> 0 < r \<Longrightarrow> has_shape c r (dag A)"
  by (simp add: dag_def has_shape_nrows has_shape_ncols)

lemma cov_entry_value:
  assumes "2 \<le> d" "0 < n" "has_shape (d ^ n) (d ^ n) X" "i < 2 * n" "j < 2 * n"
  shows "cov_entry X (nQudit_quadratures d n) i j =
         Inr (Tr (matmul (matmul X (quadrature_matrix d n i)) (dag (quadrature_matrix d n j))))"
proof -
  have N: "0 < d ^ n" using assms(1) by simp
  have Qi: "has_shape (d ^ n) (d ^ n) (quadrature_matrix d n i)"
    and Qj: "has_shape (d ^ n) (d ^ n) (dag (quadrature_matrix d n j))"
    using assms(1) N by (simp_all add: has_shape_quadrature_matrix has_shape_dag)
  have XQ: "has_shape (d ^ n) (d ^ n) (matmul X (quadrature_matrix d n i))"
    using has_shape_matmul[OF assms(3) Qi N] .
  have K: "nQudit_quadratures d n (i + 1) = Some (Matrix (quadrature_matrix d n i))"
    "nQudit_quadratures d n (j + 1) = Some (Matrix (quadrature_matrix d n j))"
    using assms by (simp_all only: nQudit_quadratures_key)
  show ?thesis
    unfolding cov_entry_def K
    using N by (simp add: matmul_chk_shape[OF assms(3) Qi] matmul_chk_shape[OF XQ Qj])
qed

lemma nQudit_cov_matrix_mk:
  assumes "2 \<le> d" "0 < n" "has_shape (d ^ n) (d ^ n) X"
  shows "nQudit_cov_matrix X d n =
     Inr (mk (2 * n) (2 * n)
       (\<lambda>i j. Tr (matmul (matmul X (quadrature_matrix d n i)) (dag (quadrature_matrix d n j)))))"
  by (rule cov_matrix_closed) (rule cov_entry_value[OF assms])

subsection \<open>One qubit\<close>

lemma quadrature_matrix_qubit:
  "quadrature_matrix 2 (Suc 0) 0 = [[0, 1], [1, 0]]"
  "quadrature_matrix 2 (Suc 0) (Suc 0) = [[1, 0], [0, -1]]"
proof -
  have X: "matrix_power (discrete_Weyl_X 2) (Suc 0) = [[0, 1], [1, 0]]"
    by (simp add: matrix_power_X mk_def upt_2)
  have Z: "matrix_power (discrete_Weyl_Z 2) (Suc 0) = [[1, 0], [0, -1]]"
    by (simp add: matrix_power_Z mk_def upt_2 w_2)
  have u: "unit_list (Suc 0) 0 = [Suc 0]"
    by (simp add: unit_list_def)
  have sX: "has_shape 2 2 (matrix_power (discrete_Weyl_X 2) (Suc 0))"
    by (rule has_shape_matrix_power_X) simp
  have sZ: "has_shape 2 2 (matrix_power (discrete_Weyl_Z 2) (Suc 0))"
    by (rule has_shape_matrix_power_Z) simp
  show "quadrature_matrix 2 (Suc 0) 0 = [[0, 1], [1, 0]]"
    using nfold_single[OF sX] by (simp add: quadrature_matrix_def u X)
  show "quadrature_matrix 2 (Suc 0) (Suc 0) = [[1, 0], [0, -1]]"
    using nfold_single[OF sZ] by (simp add: quadrature_matrix_def u Z)
qed

lemma cov_matrix_pauli_Y:
  "nQudit_cov_matrix [[0, - \<i>], [\<i>, 0]] 2 1 = Inr [[0, - (2 * \<i>)], [2 * \<i>, 0]]"
proof -
  have sh: "has_shape (2 ^ 1) (2 ^ 1) [[0, - \<i>], [\<i>, 0]]"
    by (simp add: has_shape_def)
  have "nQudit_cov_matrix [[0, - \<i>], [\<i>, 0]] 2 1 =
     Inr (mk (2 * 1) (2 * 1)
       (\<lambda>i j. Tr (matmul (matmul [[0, - \<i>], [\<i>, 0]] (quadrature_matrix 2 1 i))
                   (dag (quadrature_matrix 2 1 j)))))"
    by (rule nQudit_cov_matrix_mk[OF _ _ sh]) simp_all
  also have "\<dots> = Inr [[0, - (2 * \<i>)], [2 * \<i>, 0]]"
    by (simp add: mk_def upt_2 quadrature_matrix_qubit matmul_2x2 dag_2x2 Tr_2x2)
  finally show ?thesis .
qed

text \<open>
  Claim C4. As stated, the claim calls the result of \<open>nQudit_cov_matrix\<close> real-valued.
  The array is allocated with complex entries and the traces stored in it are complex in
  general: for one qubit and the Hermitian operator Pauli-Y the entry \<open>V[0,1]\<close> is
  \<open>-2i\<close>.
\<close>

theorem nQudit_cov_matrix_not_real:
  "nQudit_cov_matrix [[0, - \<i>], [\<i>, 0]] 2 1 = Inr [[0, - (2 * \<i>)], [2 * \<i>, 0]] \<and>
   has_shape (2 ^ 1) (2 ^ 1) [[0, - \<i>], [\<i>, 0]] \<and>
   \<not> real_valued [[0, - (2 * \<i>)], [2 * \<i>, 0]]"
  using cov_matrix_pauli_Y by (simp add: real_valued_def has_shape_def)

text \<open>
  Claim C4, amended. For every \<open>d \<ge> 2\<close>, \<open>n \<ge> 1\<close> and every
  \<open>d\<^sup>n \<times> d\<^sup>n\<close> operator \<open>X\<close>, \<open>nQudit_cov_matrix(X, d, n)\<close> returns a
  complex-valued \<open>2n \<times> 2n\<close> matrix \<open>V\<close> whose entry \<open>V[i,j]\<close> equals
  \<open>Tr(X @ S[i+1] @ dag(S[j+1]))\<close> for all \<open>i, j\<close> in \<open>[0, 2n)\<close>, where
  \<open>S = nQudit_quadratures(d, n)\<close>.
\<close>

theorem nQudit_cov_matrix_entries:
  assumes "2 \<le> d" "1 \<le> n" "has_shape (d ^ n) (d ^ n) X" "i < 2 * n" "j < 2 * n"
  shows "\<exists>V Si Sj. nQudit_cov_matrix X d n = Inr V \<and> has_shape (2 * n) (2 * n) V \<and>
           nQudit_quadratures d n (i + 1) = Some (Matrix Si) \<and>
           nQudit_quadratures d n (j + 1) = Some (Matrix Sj) \<and>
           entry V i j = Tr (matmul (matmul X Si) (dag Sj))"
proof -
  have n: "0 < n" using assms(2) by simp
  let ?f = "\<lambda>i j. Tr (matmul (matmul X (quadrature_matrix d n i)) (dag (quadrature_matrix d n j)))"
  have "nQudit_cov_matrix X d n = Inr (mk (2 * n) (2 * n) ?f)"
    using assms(1) n assms(3) by (rule nQudit_cov_matrix_mk)
  moreover have "has_shape (2 * n) (2 * n) (mk (2 * n) (2 * n) ?f)"
    by simp
  moreover have "nQudit_quadratures d n (i + 1) = Some (Matrix (quadrature_matrix d n i))"
    using assms(1) n assms(4) by (rule nQudit_quadratures_key)
  moreover have "nQudit_quadratures d n (j + 1) = Some (Matrix (quadrature_matrix d n j))"
    using assms(1) n assms(5) by (rule nQudit_quadratures_key)
  moreover have "entry (mk (2 * n) (2 * n) ?f) i j = ?f i j"
    using assms(4,5) by simp
  ultimately show ?thesis by blast
qed

theorem nQudit_cov_matrix_entries_witness:
  "\<exists>V Si Sj. nQudit_cov_matrix [[0, - \<i>], [\<i>, 0]] 2 1 = Inr V \<and> has_shape (2 * 1) (2 * 1) V \<and>
           nQudit_quadratures 2 1 (0 + 1) = Some (Matrix Si) \<and>
           nQudit_quadratures 2 1 (1 + 1) = Some (Matrix Sj) \<and>
           entry V 0 1 = Tr (matmul (matmul [[0, - \<i>], [\<i>, 0]] Si) (dag Sj))"
proof -
  have h: "(2::nat) \<le> 2" "(1::nat) \<le> 1" "has_shape (2 ^ 1) (2 ^ 1) [[0, - \<i>], [\<i>, 0]]"
    "(0::nat) < 2 * 1" "(1::nat) < 2 * 1"
    by (simp_all add: has_shape_def)
  show ?thesis
    using nQudit_cov_matrix_entries[OF h] .
qed

section \<open>The Weyl coefficient table\<close>

subsection \<open>Keys: \<open>str\<close> of an index list determines the list\<close>

lemma digit_char_inj: "a < 10 \<Longrightarrow> b < 10 \<Longrightarrow> digit_char a = digit_char b \<Longrightarrow> a = b"
proof -
  assume a: "a < 10" and b: "b < 10" and e: "digit_char a = digit_char b"
  have "distinct ''0123456789''" by simp
  moreover have "a < length ''0123456789''" "b < length ''0123456789''"
    using a b by simp_all
  ultimately show "a = b"
    using e unfolding digit_char_def by (simp only: nth_eq_iff_index_eq)
qed

lemma is_digit_digit_char: "a < 10 \<Longrightarrow> is_digit (digit_char a)"
  unfolding is_digit_def digit_char_def by (rule nth_mem) simp

declare str_nat.simps [simp del]

lemma str_nat_nonempty: "str_nat k \<noteq> []"
  by (subst str_nat.simps) simp

lemma str_nat_digits: "list_all is_digit (str_nat k)"
proof (induction k rule: str_nat.induct)
  case (1 k)
  show ?case
  proof (cases "k < 10")
    case True
    then show ?thesis by (subst str_nat.simps) (simp add: is_digit_digit_char)
  next
    case False
    then show ?thesis
      using 1 by (subst str_nat.simps) (simp add: is_digit_digit_char)
  qed
qed

lemma str_nat_inj: "str_nat a = str_nat b \<Longrightarrow> a = b"
proof (induction a arbitrary: b rule: str_nat.induct)
  case (1 a)
  show ?case
  proof (cases "a < 10")
    case a: True
    show ?thesis
    proof (cases "b < 10")
      case True
      then show ?thesis
        using a "1.prems" digit_char_inj[of a b]
        by (simp add: str_nat.simps[of a] str_nat.simps[of b])
    next
      case False
      then show ?thesis
        using a "1.prems" str_nat_nonempty[of "b div 10"]
        by (simp add: str_nat.simps[of a] str_nat.simps[of b])
    qed
  next
    case a: False
    show ?thesis
    proof (cases "b < 10")
      case True
      then show ?thesis
        using a "1.prems" str_nat_nonempty[of "a div 10"]
        by (simp add: str_nat.simps[of a] str_nat.simps[of b])
    next
      case False
      then have "str_nat (a div 10) = str_nat (b div 10)"
        and m: "digit_char (a mod 10) = digit_char (b mod 10)"
        using a "1.prems" by (simp_all add: str_nat.simps[of a] str_nat.simps[of b])
      then have "a div 10 = b div 10" using "1.IH"[OF a] by simp
      moreover have "a mod 10 = b mod 10"
        using m by (intro digit_char_inj) simp_all
      ultimately show ?thesis by (metis div_mult_mod_eq)
    qed
  qed
qed

lemma digits_prefix_unique:
  assumes "list_all is_digit a" "list_all is_digit b"
    and "r = [] \<or> \<not> is_digit (hd r)" "r' = [] \<or> \<not> is_digit (hd r')"
    and "a @ r = b @ r'"
  shows "a = b \<and> r = r'"
proof -
  have tw: "takeWhile is_digit (x @ y) = x"
    if "list_all is_digit x" "y = [] \<or> \<not> is_digit (hd y)" for x y
  proof -
    have "takeWhile is_digit y = []"
      using that(2) by (cases y) auto
    then show ?thesis
      using that(1) by (simp add: takeWhile_append2 list_all_iff)
  qed
  have "a = takeWhile is_digit (a @ r)" using tw[OF assms(1,3)] by simp
  also have "\<dots> = takeWhile is_digit (b @ r')" using assms(5) by simp
  also have "\<dots> = b" using tw[OF assms(2,4)] .
  finally have "a = b" .
  then show ?thesis using assms(5) by simp
qed

lemma join_commas_Cons:
  "join_commas (x # xs) = str_nat x @ (if xs = [] then [] else '', '' @ join_commas xs)"
  by (cases xs) simp_all

lemma comma_tail:
  "(if ys = [] then [] else '', '' @ join_commas ys) = [] \<or>
   \<not> is_digit (hd (if ys = [] then [] else '', '' @ join_commas ys))"
  by (simp add: is_digit_def)

lemma join_commas_split:
  assumes "join_commas (x # xs) = join_commas (y # ys)"
  shows "str_nat x = str_nat y \<and>
     (if xs = [] then [] else '', '' @ join_commas xs) =
     (if ys = [] then [] else '', '' @ join_commas ys)"
  using str_nat_digits[of x] str_nat_digits[of y] comma_tail[of xs] comma_tail[of ys]
    assms[unfolded join_commas_Cons]
  by (rule digits_prefix_unique)

lemma join_commas_inj_Cons:
  "join_commas (x # xs) = join_commas (y # ys) \<Longrightarrow> x = y \<and> xs = ys"
proof (induction xs arbitrary: x y ys)
  case Nil
  from join_commas_split[OF Nil] show ?case
    by (auto dest: str_nat_inj split: if_splits)
next
  case (Cons x' xs)
  note e = join_commas_split[OF Cons.prems]
  then have xy: "x = y" by (auto dest: str_nat_inj)
  from e obtain y' ys' where ys: "ys = y' # ys'"
    by (cases ys) (auto split: if_splits)
  with e have "join_commas (x' # xs) = join_commas (y' # ys')" by simp
  then have "x' = y' \<and> xs = ys'" by (rule Cons.IH)
  then show ?case using xy ys by simp
qed

lemma str_list_inj: "str_list xs = str_list ys \<Longrightarrow> xs = ys"
proof -
  assume "str_list xs = str_list ys"
  then have j: "join_commas xs = join_commas ys"
    by (simp add: str_list_def)
  show "xs = ys"
  proof (cases xs)
    case Nil
    then show ?thesis
      using j str_nat_nonempty by (cases ys) (auto simp: join_commas_Cons)
  next
    case (Cons x xs')
    then obtain y ys' where "ys = y # ys'"
      using j str_nat_nonempty by (cases ys) (auto simp: join_commas_Cons)
    then show ?thesis using j Cons join_commas_inj_Cons by blast
  qed
qed

subsection \<open>The set of enumerated index lists\<close>

lemma set_product_step:
  "set (product_step S p) = {x @ [y] | x y. x \<in> set S \<and> y \<in> set p}"
  by (auto simp: product_step_def)

lemma index_lists_Suc:
  "index_lists d (Suc n) = {x @ [y] | x y. x \<in> index_lists d n \<and> y < d}"
proof (intro set_eqI iffI)
  fix s assume "s \<in> index_lists d (Suc n)"
  then have l: "length s = Suc n" and a: "list_all (\<lambda>x. x < d) s"
    by (simp_all add: index_lists_def)
  then have ne: "s \<noteq> []" by auto
  then have s: "s = butlast s @ [last s]" by simp
  have "list_all (\<lambda>x. x < d) (butlast s @ [last s])" using a s by simp
  then have "butlast s \<in> index_lists d n" "last s < d"
    using l by (simp_all add: index_lists_def)
  then show "s \<in> {x @ [y] | x y. x \<in> index_lists d n \<and> y < d}"
    using s by blast
next
  fix s assume "s \<in> {x @ [y] | x y. x \<in> index_lists d n \<and> y < d}"
  then show "s \<in> index_lists d (Suc n)"
    by (auto simp: index_lists_def)
qed

lemma set_itertools_product:
  "set (itertools_product (replicate n [0..<d])) = index_lists d n"
proof (induction n)
  case 0
  show ?case by (auto simp: itertools_product_def index_lists_def)
next
  case (Suc n)
  show ?case
    unfolding itertools_product_Suc set_product_step Suc index_lists_Suc by simp
qed

subsection \<open>The dictionary built by the loops\<close>

lemma fold_upd_inj:
  assumes "inj key"
  shows "foldl (\<lambda>C p. C(key p \<mapsto> val p)) C ps =
         (\<lambda>k. if k \<in> key ` set ps then Some (val (inv key k)) else C k)"
proof (induction ps arbitrary: C)
  case Nil
  show ?case by simp
next
  case (Cons p ps)
  have "foldl (\<lambda>C p. C(key p \<mapsto> val p)) C (p # ps) =
        (\<lambda>k. if k \<in> key ` set ps then Some (val (inv key k)) else (C(key p \<mapsto> val p)) k)"
    by (simp only: foldl.simps Cons)
  also have "\<dots> = (\<lambda>k. if k \<in> key ` set (p # ps) then Some (val (inv key k)) else C k)"
    using assms by (auto simp: fun_eq_iff)
  finally show ?case .
qed

lemma nested_fold_flat:
  "foldl (\<lambda>C s. foldl (\<lambda>C t. f C (s, t)) C S) C ss =
   foldl f C (concat (map (\<lambda>s. map (\<lambda>t. (s, t)) S) ss))"
  by (induction ss arbitrary: C) (simp_all add: foldl_map)

lemma set_pairs:
  "set (concat (map (\<lambda>s. map (\<lambda>t. (s, t)) S) ss)) = set ss \<times> set S"
  by auto

lemma coeff_inner_ok:
  assumes "\<And>t. t \<in> set ts \<Longrightarrow>
     matmul_arr (generate_nQudit_X d s) (generate_nQudit_Z d t) = Inr (G s t) \<and>
     matmul_chk (dag (G s t)) X = Inr (matmul (dag (G s t)) X)"
  shows "coeff_inner X d n s ts C =
     Inr (foldl (\<lambda>C t. C((str_list s, str_list t) \<mapsto>
            (1 / of_nat (d ^ n)) * around (Tr (matmul (dag (G s t)) X)) 10)) C ts)"
  using assms by (induction ts arbitrary: C) simp_all

lemma coeff_outer_ok:
  assumes "\<And>s t. s \<in> set ss \<Longrightarrow> t \<in> set S \<Longrightarrow>
     matmul_arr (generate_nQudit_X d s) (generate_nQudit_Z d t) = Inr (G s t) \<and>
     matmul_chk (dag (G s t)) X = Inr (matmul (dag (G s t)) X)"
  shows "coeff_outer X d n S ss C =
     Inr (foldl (\<lambda>C s. foldl (\<lambda>C t. C((str_list s, str_list t) \<mapsto>
            (1 / of_nat (d ^ n)) * around (Tr (matmul (dag (G s t)) X)) 10)) C S) C ss)"
  using assms
proof (induction ss arbitrary: C)
  case Nil
  show ?case by simp
next
  case (Cons s ss)
  have "coeff_inner X d n s S C =
     Inr (foldl (\<lambda>C t. C((str_list s, str_list t) \<mapsto>
            (1 / of_nat (d ^ n)) * around (Tr (matmul (dag (G s t)) X)) 10)) C S)"
    by (rule coeff_inner_ok) (simp add: Cons.prems)
  note h = this
  have IH: "coeff_outer X d n S ss C' =
     Inr (foldl (\<lambda>C s. foldl (\<lambda>C t. C((str_list s, str_list t) \<mapsto>
            (1 / of_nat (d ^ n)) * around (Tr (matmul (dag (G s t)) X)) 10)) C S) C' ss)" for C'
    by (rule Cons.IH) (simp add: Cons.prems)
  show ?case
    by (simp only: coeff_outer.simps h sum.case IH foldl.simps)
qed

lemma inj_key: "inj (\<lambda>p. (str_list (fst p), str_list (snd p)))"
  by (auto simp: inj_on_def prod_eq_iff dest: str_list_inj)

lemma inj_weyl_key: "inj weyl_key"
  unfolding weyl_key_def by (rule inj_key)

lemma has_shape_weyl_G:
  assumes "2 \<le> d" "length s = n" "length t = n"
  shows "has_shape (d ^ n) (d ^ n) (weyl_G d s t)"
proof -
  have X: "has_shape (d ^ n) (d ^ n) (nfold (discrete_Weyl_X d) s)"
    using has_shape_nfold_X[OF assms(1), of s] assms(2) by simp
  have Z: "has_shape (d ^ n) (d ^ n) (nfold (discrete_Weyl_Z d) t)"
    using has_shape_nfold_Z[OF assms(1), of t] assms(3) by simp
  have N: "0 < d ^ n" using assms(1) by simp
  show ?thesis
    unfolding weyl_G_def using has_shape_matmul[OF X Z N] .
qed

lemma weyl_step_ok:
  assumes "2 \<le> d" "1 \<le> n" "has_shape (d ^ n) (d ^ n) X" "length s = n" "length t = n"
  shows "matmul_arr (generate_nQudit_X d s) (generate_nQudit_Z d t) = Inr (weyl_G d s t) \<and>
     matmul_chk (dag (weyl_G d s t)) X = Inr (matmul (dag (weyl_G d s t)) X)"
proof -
  have N: "0 < d ^ n" using assms(1) by simp
  have ne: "s \<noteq> []" using assms(2,4) by auto
  have 1: "matmul_arr (generate_nQudit_X d s) (generate_nQudit_Z d t) = Inr (weyl_G d s t)"
    unfolding weyl_G_def using assms(1) ne assms(4,5) by (intro matmul_arr_XZ) simp_all
  have G: "has_shape (d ^ n) (d ^ n) (dag (weyl_G d s t))"
    using has_shape_dag[OF has_shape_weyl_G[OF assms(1,4,5)] N] .
  show ?thesis using 1 matmul_chk_shape[OF G assms(3) N] by simp
qed

lemma nQudit_Weyl_coeff_closed:
  assumes "2 \<le> d" "1 \<le> n" "has_shape (d ^ n) (d ^ n) X"
  shows "nQudit_Weyl_coeff X d n =
     Inr (\<lambda>k. if k \<in> weyl_key ` (index_lists d n \<times> index_lists d n)
              then Some (weyl_val X d n (inv weyl_key k)) else None)"
proof -
  let ?S = "itertools_product (replicate n [0..<d])"
  have len: "length s = n" if "s \<in> set ?S" for s
    using that by (simp add: set_itertools_product index_lists_def)
  have "coeff_outer X d n ?S ?S Map.empty =
     Inr (foldl (\<lambda>C s. foldl (\<lambda>C t. C((str_list s, str_list t) \<mapsto>
            (1 / of_nat (d ^ n)) * around (Tr (matmul (dag (weyl_G d s t)) X)) 10)) C ?S)
            Map.empty ?S)"
    by (rule coeff_outer_ok) (rule weyl_step_ok[OF assms], simp_all add: len)
  also have "foldl (\<lambda>C s. foldl (\<lambda>C t. C((str_list s, str_list t) \<mapsto>
            (1 / of_nat (d ^ n)) * around (Tr (matmul (dag (weyl_G d s t)) X)) 10)) C ?S)
            Map.empty ?S =
        foldl (\<lambda>C s. foldl (\<lambda>C t. (\<lambda>C p. C(weyl_key p \<mapsto> weyl_val X d n p)) C (s, t)) C ?S)
            Map.empty ?S"
    by (simp only: weyl_key_def weyl_val_def fst_conv snd_conv)
  also have "\<dots> = foldl (\<lambda>C p. C(weyl_key p \<mapsto> weyl_val X d n p)) Map.empty
            (concat (map (\<lambda>s. map (\<lambda>t. (s, t)) ?S) ?S))"
    by (rule nested_fold_flat)
  also have "\<dots> = (\<lambda>k. if k \<in> weyl_key ` set (concat (map (\<lambda>s. map (\<lambda>t. (s, t)) ?S) ?S))
              then Some (weyl_val X d n (inv weyl_key k)) else Map.empty k)"
    by (rule fold_upd_inj[OF inj_weyl_key])
  finally show ?thesis
    by (simp only: nQudit_Weyl_coeff_def Let_def set_pairs set_itertools_product)
qed

lemma nQudit_Weyl_coeff_at:
  assumes "2 \<le> d" "1 \<le> n" "has_shape (d ^ n) (d ^ n) X"
    "s \<in> index_lists d n" "t \<in> index_lists d n"
  shows "lookup_coeff (nQudit_Weyl_coeff X d n) s t =
     Some ((1 / of_nat (d ^ n)) * around (Tr (matmul (dag (weyl_G d s t)) X)) 10)"
proof -
  have k: "weyl_key (s, t) \<in> weyl_key ` (index_lists d n \<times> index_lists d n)"
    using assms(4,5) by blast
  have i: "inv weyl_key (weyl_key (s, t)) = (s, t)"
    by (rule inv_f_f[OF inj_weyl_key])
  have "lookup_coeff (nQudit_Weyl_coeff X d n) s t = Some (weyl_val X d n (s, t))"
    unfolding lookup_coeff_def nQudit_Weyl_coeff_closed[OF assms(1-3)]
    using k i by (simp add: weyl_key_def)
  then show ?thesis by (simp add: weyl_val_def)
qed

lemma dom_nQudit_Weyl_coeff:
  "dom (\<lambda>k. if k \<in> weyl_key ` (index_lists d n \<times> index_lists d n)
              then Some (weyl_val X d n (inv weyl_key k)) else None) =
   {(str_list s, str_list t) | s t. s \<in> index_lists d n \<and> t \<in> index_lists d n}"
  by (auto simp: dom_def weyl_key_def image_iff split: if_splits)

text \<open>
  Claim C3, amended. For every \<open>d \<ge> 2\<close>, \<open>n \<ge> 1\<close> and
  \<open>d\<^sup>n \<times> d\<^sup>n\<close> operator \<open>X\<close>, \<open>nQudit_Weyl_coeff(X, d, n)\<close> returns a
  mapping whose keys are exactly the pairs \<open>(str(s), str(t))\<close> for all \<open>s, t\<close> in
  \<open>[0, d)\<^sup>n\<close>, and whose value at \<open>(s, t)\<close> is \<open>1/d\<^sup>n\<close> times the trace
  \<open>Tr(dag(generate_nQudit_X(d, s) @ generate_nQudit_Z(d, t)) @ X)\<close> rounded to 10 decimal
  places: the trace is rounded first and scaled afterwards.
\<close>

theorem nQudit_Weyl_coeff_formula:
  assumes "2 \<le> d" "1 \<le> n" "has_shape (d ^ n) (d ^ n) X"
    "s \<in> index_lists d n" "t \<in> index_lists d n"
  shows "\<exists>C G. nQudit_Weyl_coeff X d n = Inr C \<and>
     dom C = {(str_list s, str_list t) | s t. s \<in> index_lists d n \<and> t \<in> index_lists d n} \<and>
     matmul_arr (generate_nQudit_X d s) (generate_nQudit_Z d t) = Inr G \<and>
     C (str_list s, str_list t) =
       Some ((1 / of_nat (d ^ n)) * around (Tr (matmul (dag G) X)) 10)"
proof -
  let ?C = "\<lambda>k. if k \<in> weyl_key ` (index_lists d n \<times> index_lists d n)
              then Some (weyl_val X d n (inv weyl_key k)) else None"
  have C: "nQudit_Weyl_coeff X d n = Inr ?C"
    using assms(1-3) by (rule nQudit_Weyl_coeff_closed)
  have len: "length s = n" "length t = n"
    using assms(4,5) by (simp_all add: index_lists_def)
  have G: "matmul_arr (generate_nQudit_X d s) (generate_nQudit_Z d t) = Inr (weyl_G d s t)"
    using weyl_step_ok[OF assms(1-3) len] by simp
  have "lookup_coeff (nQudit_Weyl_coeff X d n) s t =
     Some ((1 / of_nat (d ^ n)) * around (Tr (matmul (dag (weyl_G d s t)) X)) 10)"
    using assms by (rule nQudit_Weyl_coeff_at)
  then have v: "?C (str_list s, str_list t) =
     Some ((1 / of_nat (d ^ n)) * around (Tr (matmul (dag (weyl_G d s t)) X)) 10)"
    unfolding C lookup_coeff_def by simp
  show ?thesis
    using C dom_nQudit_Weyl_coeff[of d n X] G v by blast
qed

lemma weyl_G_qubit_00: "weyl_G 2 [0] [0] = [[1, 0], [0, 1]]"
proof -
  have X: "matrix_power (discrete_Weyl_X 2) 0 = [[1, 0], [0, 1]]"
    by (simp add: matrix_power_X mk_def upt_2)
  have Z: "matrix_power (discrete_Weyl_Z 2) 0 = [[1, 0], [0, 1]]"
    by (simp add: matrix_power_Z mk_def upt_2)
  have sX: "has_shape 2 2 (matrix_power (discrete_Weyl_X 2) 0)"
    by (rule has_shape_matrix_power_X) simp
  have sZ: "has_shape 2 2 (matrix_power (discrete_Weyl_Z 2) 0)"
    by (rule has_shape_matrix_power_Z) simp
  show ?thesis
    using nfold_single[OF sX] nfold_single[OF sZ]
    by (simp add: weyl_G_def X Z matmul_2x2)
qed

lemma rint_1: "rint 1 = 1"
  by (simp add: rint_def)

lemma rint_0: "rint 0 = 0"
  by (simp add: rint_def)

lemma rint_half: "rint (1 / 2) = 0"
  by (simp add: rint_def)

lemma around_tiny: "around (Complex (1 / 10 ^ 10) 0) 10 = Complex (1 / 10 ^ 10) 0"
  by (simp add: around_def around_real_def rint_1 rint_0)

lemma around_half_tiny: "around (Complex (1 / (2 * 10 ^ 10)) 0) 10 = 0"
  by (simp add: around_def around_real_def rint_half rint_0 zero_complex.code)

text \<open>
  Claim C3. As stated, the value at \<open>(s, t)\<close> is
  \<open>(1/d\<^sup>n) * Tr(dag(G) @ X)\<close> rounded to 10 decimal places. The code rounds the trace
  and then scales it, so the stored value need not have 10 decimals: for one qubit and
  \<open>X = [[10\<^sup>-\<^sup>1\<^sup>0, 0], [0, 0]]\<close> the value stored at \<open>('[0]', '[0]')\<close> is
  \<open>10\<^sup>-\<^sup>1\<^sup>0 / 2\<close>, while \<open>(1/2) * Tr(dag(G) @ X)\<close> rounded to 10 decimal
  places is 0.
\<close>

theorem nQudit_Weyl_coeff_rounds_before_scaling:
  "has_shape (2 ^ 1) (2 ^ 1) [[Complex (1 / 10 ^ 10) 0, 0], [0, 0]] \<and>
   [0] \<in> index_lists 2 1 \<and>
   matmul_arr (generate_nQudit_X 2 [0]) (generate_nQudit_Z 2 [0]) = Inr [[1, 0], [0, 1]] \<and>
   (1 / of_nat (2 ^ 1)) * Tr (matmul (dag [[1, 0], [0, 1]]) [[Complex (1 / 10 ^ 10) 0, 0], [0, 0]]) =
     Complex (1 / (2 * 10 ^ 10)) 0 \<and>
   around (Complex (1 / (2 * 10 ^ 10)) 0) 10 = 0 \<and>
   lookup_coeff (nQudit_Weyl_coeff [[Complex (1 / 10 ^ 10) 0, 0], [0, 0]] 2 1) [0] [0] =
     Some (Complex (1 / (2 * 10 ^ 10)) 0) \<and>
   Complex (1 / (2 * 10 ^ 10)) 0 \<noteq> 0"
proof -
  let ?X = "[[Complex (1 / 10 ^ 10) 0, 0], [0, 0]]"
  have sh: "has_shape (2 ^ 1) (2 ^ 1) ?X" by (simp add: has_shape_def)
  have idx: "[0] \<in> index_lists 2 1" by (simp add: index_lists_def)
  have G: "matmul_arr (generate_nQudit_X 2 [0]) (generate_nQudit_Z 2 [0]) = Inr [[1, 0], [0, 1]]"
    using weyl_step_ok[OF _ _ sh, of "[0]" "[0]"] by (simp add: weyl_G_qubit_00)
  have T: "Tr (matmul (dag [[1, 0], [0, 1]]) ?X) = Complex (1 / 10 ^ 10) 0"
    by (simp add: dag_2x2 matmul_2x2 Tr_2x2)
  have v: "(1 / of_nat (2 ^ 1)) * Complex (1 / 10 ^ 10) 0 = Complex (1 / (2 * 10 ^ 10)) 0"
    by (simp add: complex_eq_iff)
  have "lookup_coeff (nQudit_Weyl_coeff ?X 2 1) [0] [0] =
     Some ((1 / of_nat (2 ^ 1)) * around (Tr (matmul (dag (weyl_G 2 [0] [0])) ?X)) 10)"
    by (rule nQudit_Weyl_coeff_at[OF _ _ sh idx idx]) simp_all
  then have L: "lookup_coeff (nQudit_Weyl_coeff ?X 2 1) [0] [0] =
     Some (Complex (1 / (2 * 10 ^ 10)) 0)"
    by (simp only: weyl_G_qubit_00 T around_tiny v)
  have ne: "Complex (1 / (2 * 10 ^ 10)) 0 \<noteq> 0"
    by (simp add: complex_eq_iff)
  show ?thesis
    using sh idx G T v L around_half_tiny ne by (simp only:) simp
qed

theorem nQudit_Weyl_coeff_formula_witness:
  "\<exists>C G. nQudit_Weyl_coeff [[Complex (1 / 10 ^ 10) 0, 0], [0, 0]] 2 1 = Inr C \<and>
     dom C = {(str_list s, str_list t) | s t. s \<in> index_lists 2 1 \<and> t \<in> index_lists 2 1} \<and>
     matmul_arr (generate_nQudit_X 2 [0]) (generate_nQudit_Z 2 [1]) = Inr G \<and>
     C (str_list [0], str_list [1]) =
       Some ((1 / of_nat (2 ^ 1)) *
         around (Tr (matmul (dag G) [[Complex (1 / 10 ^ 10) 0, 0], [0, 0]])) 10)"
proof -
  have h: "(2::nat) \<le> 2" "(1::nat) \<le> 1"
    "has_shape (2 ^ 1) (2 ^ 1) [[Complex (1 / 10 ^ 10) 0, 0], [0, 0]]"
    "[0] \<in> index_lists 2 1" "[1] \<in> index_lists 2 1"
    by (simp_all add: has_shape_def index_lists_def)
  show ?thesis
    using nQudit_Weyl_coeff_formula[OF h] .
qed

section \<open>Complete families of operators\<close>

lemma sum_div_mod:
  fixes f :: "nat \<Rightarrow> 'a::comm_monoid_add"
  shows "(\<Sum>k<N * d. f k) = (\<Sum>k1<N. \<Sum>k2<d. f (k1 * d + k2))"
proof -
  have "(\<Sum>k2<d. f (m * d + k2)) = sum f {m * d..<m * d + d}" for m
  proof -
    have "sum f {m * d..<m * d + d} = sum f {0 + m * d..<d + m * d}"
      by (simp add: add.commute)
    also have "\<dots> = (\<Sum>i\<in>{0..<d}. f (i + m * d))"
      by (rule sum.shift_bounds_nat_ivl)
    finally show ?thesis by (simp add: atLeast0LessThan add.commute)
  qed
  then show ?thesis
    using sum.nat_group[of f d N] by simp
qed

lemma sum_div_mod2:
  fixes g :: "nat \<Rightarrow> nat \<Rightarrow> 'a::comm_monoid_add"
  assumes "0 < d"
  shows "(\<Sum>k<N * d. g (k div d) (k mod d)) = (\<Sum>k1<N. \<Sum>k2<d. g k1 k2)"
proof -
  have "(\<Sum>k<N * d. g (k div d) (k mod d)) =
        (\<Sum>k1<N. \<Sum>k2<d. g ((k1 * d + k2) div d) ((k1 * d + k2) mod d))"
    by (rule sum_div_mod)
  also have "\<dots> = (\<Sum>k1<N. \<Sum>k2<d. g k1 k2)"
    by (intro sum.cong refl) simp
  finally show ?thesis .
qed

lemma sum4_swap:
  fixes f :: "nat \<Rightarrow> nat \<Rightarrow> nat \<Rightarrow> nat \<Rightarrow> 'a::comm_monoid_add"
  shows "(\<Sum>a1<N. \<Sum>a2<d. \<Sum>b1<N. \<Sum>b2<d. f a1 a2 b1 b2) =
         (\<Sum>a2<d. \<Sum>b2<d. \<Sum>a1<N. \<Sum>b1<N. f a1 a2 b1 b2)"
proof -
  have "(\<Sum>a1<N. \<Sum>a2<d. \<Sum>b1<N. \<Sum>b2<d. f a1 a2 b1 b2) =
        (\<Sum>a2<d. \<Sum>a1<N. \<Sum>b1<N. \<Sum>b2<d. f a1 a2 b1 b2)"
    by (rule sum.swap)
  also have "\<dots> = (\<Sum>a2<d. \<Sum>a1<N. \<Sum>b2<d. \<Sum>b1<N. f a1 a2 b1 b2)"
    by (rule sum.cong[OF refl], rule sum.cong[OF refl], rule sum.swap)
  also have "\<dots> = (\<Sum>a2<d. \<Sum>b2<d. \<Sum>a1<N. \<Sum>b1<N. f a1 a2 b1 b2)"
    by (rule sum.cong[OF refl], rule sum.swap)
  finally show ?thesis .
qed

lemma sum_div_mod_pair:
  fixes g :: "nat \<Rightarrow> nat \<Rightarrow> nat \<Rightarrow> nat \<Rightarrow> 'a::comm_monoid_add"
  assumes "0 < d"
  shows "(\<Sum>a<N * d. \<Sum>b<N * d. g (a div d) (a mod d) (b div d) (b mod d)) =
         (\<Sum>a1<N. \<Sum>a2<d. \<Sum>b1<N. \<Sum>b2<d. g a1 a2 b1 b2)"
proof -
  have "(\<Sum>a<N * d. \<Sum>b<N * d. g (a div d) (a mod d) (b div d) (b mod d)) =
        (\<Sum>a<N * d. \<Sum>b1<N. \<Sum>b2<d. g (a div d) (a mod d) b1 b2)"
    by (rule sum.cong[OF refl]) (rule sum_div_mod2[OF assms])
  also have "\<dots> = (\<Sum>a1<N. \<Sum>a2<d. \<Sum>b1<N. \<Sum>b2<d. g a1 a2 b1 b2)"
    by (rule sum_div_mod2[OF assms])
  finally show ?thesis .
qed

lemma inner_tensor:
  assumes "0 < d"
  shows "inner_sys (N * d) (tensor_sys d E h a b) F =
         inner_sys N (E (a div d) (b div d))
           (\<lambda>p1 q1. inner_sys d (h (a mod d) (b mod d)) (\<lambda>p2 q2. F (p1 * d + p2) (q1 * d + q2)))"
proof -
  let ?e = "E (a div d) (b div d)" and ?h = "h (a mod d) (b mod d)"
  have "inner_sys (N * d) (tensor_sys d E h a b) F =
        (\<Sum>p<N * d. \<Sum>q<N * d.
           cnj (?e (p div d) (q div d)) * (cnj (?h (p mod d) (q mod d)) *
             F (p div d * d + p mod d) (q div d * d + q mod d)))"
    by (simp add: inner_sys_def tensor_sys_def mult.assoc)
  also have "\<dots> = (\<Sum>p1<N. \<Sum>p2<d. \<Sum>q1<N. \<Sum>q2<d.
           cnj (?e p1 q1) * (cnj (?h p2 q2) * F (p1 * d + p2) (q1 * d + q2)))"
    by (rule sum_div_mod_pair[OF assms, where N = N and
          g = "\<lambda>p1 p2 q1 q2. cnj (?e p1 q1) * (cnj (?h p2 q2) * F (p1 * d + p2) (q1 * d + q2))"])
  also have "\<dots> = (\<Sum>p1<N. \<Sum>q1<N. \<Sum>p2<d. \<Sum>q2<d.
           cnj (?e p1 q1) * (cnj (?h p2 q2) * F (p1 * d + p2) (q1 * d + q2)))"
    by (rule sum.cong[OF refl], rule sum.swap)
  also have "\<dots> = (\<Sum>p1<N. \<Sum>q1<N. cnj (?e p1 q1) *
           (\<Sum>p2<d. \<Sum>q2<d. cnj (?h p2 q2) * F (p1 * d + p2) (q1 * d + q2)))"
    by (simp add: sum_distrib_left)
  finally show ?thesis by (simp add: inner_sys_def)
qed

lemma tensor_complete:
  assumes E: "complete_sys N E" and h: "complete_sys d h" and d: "0 < d"
  shows "complete_sys (N * d) (tensor_sys d E h)"
  unfolding complete_sys_def
proof (intro allI impI)
  fix F :: "nat \<Rightarrow> nat \<Rightarrow> complex" and i j
  assume i: "i < N * d" and j: "j < N * d"
  have i1: "i div d < N" and j1: "j div d < N"
    using i j by (simp_all add: less_mult_imp_div_less)
  have i2: "i mod d < d" and j2: "j mod d < d" using d by simp_all
  let ?F' = "\<lambda>a2 b2 p1 q1. inner_sys d (h a2 b2) (\<lambda>p2 q2. F (p1 * d + p2) (q1 * d + q2))"
  let ?I = "\<lambda>a1 a2 b1 b2. inner_sys N (E a1 b1) (?F' a2 b2) *
              (E a1 b1 (i div d) (j div d) * h a2 b2 (i mod d) (j mod d))"
  have "(\<Sum>a<N * d. \<Sum>b<N * d. inner_sys (N * d) (tensor_sys d E h a b) F * tensor_sys d E h a b i j) =
        (\<Sum>a<N * d. \<Sum>b<N * d. ?I (a div d) (a mod d) (b div d) (b mod d))"
    by (simp add: inner_tensor[OF d] tensor_sys_def)
  also have "\<dots> = (\<Sum>a1<N. \<Sum>a2<d. \<Sum>b1<N. \<Sum>b2<d. ?I a1 a2 b1 b2)"
    by (rule sum_div_mod_pair[OF d, where N = N and g = ?I])
  also have "\<dots> = (\<Sum>a2<d. \<Sum>b2<d. \<Sum>a1<N. \<Sum>b1<N. ?I a1 a2 b1 b2)"
    by (rule sum4_swap)
  also have "\<dots> = (\<Sum>a2<d. \<Sum>b2<d. h a2 b2 (i mod d) (j mod d) *
        (\<Sum>a1<N. \<Sum>b1<N. inner_sys N (E a1 b1) (?F' a2 b2) * E a1 b1 (i div d) (j div d)))"
    by (simp add: sum_distrib_left mult_ac)
  also have "\<dots> = (\<Sum>a2<d. \<Sum>b2<d. h a2 b2 (i mod d) (j mod d) *
        (of_nat N * ?F' a2 b2 (i div d) (j div d)))"
    using E i1 j1 by (simp add: complete_sys_def)
  also have "\<dots> = of_nat N * (\<Sum>a2<d. \<Sum>b2<d.
        inner_sys d (h a2 b2) (\<lambda>p2 q2. F (i div d * d + p2) (j div d * d + q2)) *
        h a2 b2 (i mod d) (j mod d))"
    by (simp add: sum_distrib_left mult_ac)
  also have "\<dots> = of_nat N * (of_nat d * F (i div d * d + i mod d) (j div d * d + j mod d))"
    using h i2 j2 by (simp add: complete_sys_def)
  finally show "(\<Sum>a<N * d. \<Sum>b<N * d.
        inner_sys (N * d) (tensor_sys d E h a b) F * tensor_sys d E h a b i j) =
      of_nat (N * d) * F i j"
    by simp
qed

lemma tensor_unit:
  assumes E: "unit_sys N E" and h: "unit_sys d h" and d: "0 < d"
  shows "unit_sys (N * d) (tensor_sys d E h)"
  unfolding unit_sys_def
proof (intro allI impI)
  fix i j
  assume i: "i < N * d" and j: "j < N * d"
  have i1: "i div d < N" and j1: "j div d < N"
    using i j by (simp_all add: less_mult_imp_div_less)
  have i2: "i mod d < d" and j2: "j mod d < d" using d by simp_all
  let ?I = "\<lambda>a1 a2 b1 b2. cmod (E a1 b1 (i div d) (j div d)) * cmod (h a2 b2 (i mod d) (j mod d))"
  have "(\<Sum>a<N * d. \<Sum>b<N * d. cmod (tensor_sys d E h a b i j)) =
        (\<Sum>a<N * d. \<Sum>b<N * d. ?I (a div d) (a mod d) (b div d) (b mod d))"
    by (simp add: tensor_sys_def norm_mult)
  also have "\<dots> = (\<Sum>a1<N. \<Sum>a2<d. \<Sum>b1<N. \<Sum>b2<d. ?I a1 a2 b1 b2)"
    by (rule sum_div_mod_pair[OF d, where N = N and g = ?I])
  also have "\<dots> = (\<Sum>a2<d. \<Sum>b2<d. \<Sum>a1<N. \<Sum>b1<N. ?I a1 a2 b1 b2)"
    by (rule sum4_swap)
  also have "\<dots> = (\<Sum>a2<d. \<Sum>b2<d. cmod (h a2 b2 (i mod d) (j mod d)) *
        (\<Sum>a1<N. \<Sum>b1<N. cmod (E a1 b1 (i div d) (j div d))))"
    by (simp add: sum_distrib_left mult_ac)
  also have "\<dots> = (\<Sum>a2<d. \<Sum>b2<d. cmod (h a2 b2 (i mod d) (j mod d)) * of_nat N)"
    using E i1 j1 by (simp add: unit_sys_def)
  also have "\<dots> = of_nat N * (\<Sum>a2<d. \<Sum>b2<d. cmod (h a2 b2 (i mod d) (j mod d)))"
    by (simp add: sum_distrib_left mult_ac)
  also have "\<dots> = of_nat N * of_nat d"
    using h i2 j2 by (simp add: unit_sys_def)
  finally show "(\<Sum>a<N * d. \<Sum>b<N * d. cmod (tensor_sys d E h a b i j)) = of_nat (N * d)"
    by simp
qed

section \<open>The round trip of the Weyl decomposition\<close>

lemma complete_sys_one: "complete_sys 1 (\<lambda>a b i j. 1)"
  by (simp add: complete_sys_def inner_sys_def)

lemma unit_sys_one: "unit_sys 1 (\<lambda>a b i j. 1)"
  by (simp add: unit_sys_def)

lemma complete_pow_sys:
  assumes "complete_sys d h" "0 < d"
  shows "complete_sys (d ^ n) (pow_sys d h n)"
proof (induction n)
  case 0
  show ?case using complete_sys_one by simp
next
  case (Suc n)
  show ?case
    using tensor_complete[OF Suc assms] by (simp add: mult.commute)
qed

lemma unit_pow_sys:
  assumes "unit_sys d h" "0 < d"
  shows "unit_sys (d ^ n) (pow_sys d h n)"
proof (induction n)
  case 0
  show ?case using unit_sys_one by simp
next
  case (Suc n)
  show ?case
    using tensor_unit[OF Suc assms] by (simp add: mult.commute)
qed

subsection \<open>The single-qudit family \<open>X\<^sup>a Z\<^sup>b\<close>\<close>

lemma shift_unique:
  fixes i j a d :: nat
  assumes "i < d" "j < d" "a < d"
  shows "(i = (j + a) mod d) = (a = (i + d - j) mod d)"
proof
  assume a: "a = (i + d - j) mod d"
  have "(j + a) mod d = (j + (i + d - j)) mod d"
    unfolding a by (rule mod_add_right_eq)
  also have "\<dots> = (i + d) mod d" using assms by simp
  also have "\<dots> = i" using assms by simp
  finally show "i = (j + a) mod d" by simp
next
  assume e: "i = (j + a) mod d"
  have "(j + ((i + d - j) mod d)) mod d = (j + (i + d - j)) mod d"
    by (rule mod_add_right_eq)
  also have "\<dots> = (i + d) mod d" using assms by simp
  also have "\<dots> = i" using assms by simp
  finally have "((i + d - j) mod d + j) mod d = (a + j) mod d"
    using e by (simp add: add.commute)
  then show "a = (i + d - j) mod d"
    using shift_inj[of "(i + d - j) mod d" j d a] assms by simp
qed

lemma weyl_inner:
  assumes "0 < d"
  shows "inner_sys d (weyl_entry d a b) F =
         (\<Sum>q<d. cnj (w d ^ (q * b)) * F ((q + a) mod d) q)"
proof -
  have "inner_sys d (weyl_entry d a b) F =
        (\<Sum>q<d. \<Sum>p<d. cnj (if p = (q + a) mod d then w d ^ (q * b) else 0) * F p q)"
    unfolding inner_sys_def weyl_entry_def by (rule sum.swap)
  also have "\<dots> = (\<Sum>q<d. cnj (w d ^ (q * b)) * F ((q + a) mod d) q)"
  proof (rule sum.cong[OF refl])
    fix q
    have "(\<Sum>p<d. cnj (if p = (q + a) mod d then w d ^ (q * b) else 0) * F p q) =
          (\<Sum>p<d. (if p = (q + a) mod d then cnj (w d ^ (q * b)) else 0) * F p q)"
      by (rule sum.cong[OF refl]) simp
    also have "\<dots> = cnj (w d ^ (q * b)) * F ((q + a) mod d) q"
      using assms by (simp only: sum_if_eq) simp
    finally show "(\<Sum>p<d. cnj (if p = (q + a) mod d then w d ^ (q * b) else 0) * F p q) =
          cnj (w d ^ (q * b)) * F ((q + a) mod d) q" .
  qed
  finally show ?thesis .
qed

lemma weyl_phase_sum:
  assumes "0 < d" "q < d" "j < d"
  shows "(\<Sum>b<d. cnj (w d ^ (q * b)) * w d ^ (j * b)) = (if q = j then of_nat d else 0)"
proof -
  have "(\<Sum>b<d. cnj (w d ^ (q * b)) * w d ^ (j * b)) =
        (\<Sum>b<d. cnj (w d ^ (b * q)) * w d ^ (b * j))"
    by (simp only: mult.commute)
  also have "\<dots> = (\<Sum>b<d. w d ^ (b * (q * (d - 1) + j)))"
    by (rule sum.cong[OF refl]) (rule cnj_w_mult[OF assms(1)])
  also have "\<dots> = (if d dvd q * (d - 1) + j then of_nat d else 0)"
    using assms(1) by (rule sum_w_pow)
  also have "\<dots> = (if q = j then of_nat d else 0)"
    using dvd_shift_iff[OF assms(2,3)] by (simp only:)
  finally show ?thesis .
qed

lemma complete_weyl_entry:
  assumes "0 < d"
  shows "complete_sys d (weyl_entry d)"
  unfolding complete_sys_def
proof (intro allI impI)
  fix F :: "nat \<Rightarrow> nat \<Rightarrow> complex" and i j
  assume i: "i < d" and j: "j < d"
  define a' where "a' = (i + d - j) mod d"
  have a': "a' < d" using assms by (simp add: a'_def)
  have ia': "(j + a') mod d = i"
    using shift_unique[OF i j a'] by (simp add: a'_def)
  define \<Phi> where "\<Phi> = (\<lambda>a. \<Sum>b<d. inner_sys d (weyl_entry d a b) F * w d ^ (j * b))"
  have "(\<Sum>a<d. \<Sum>b<d. inner_sys d (weyl_entry d a b) F * weyl_entry d a b i j) =
        (\<Sum>a<d. if a = a' then \<Phi> a else 0)"
  proof (rule sum.cong[OF refl])
    fix a assume "a \<in> {..<d}"
    then have a: "a < d" by simp
    show "(\<Sum>b<d. inner_sys d (weyl_entry d a b) F * weyl_entry d a b i j) =
          (if a = a' then \<Phi> a else 0)"
      using shift_unique[OF i j a] by (simp add: weyl_entry_def \<Phi>_def a'_def)
  qed
  also have "\<dots> = \<Phi> a'"
    using a' by (simp add: sum.delta)
  also have "\<dots> = (\<Sum>b<d. \<Sum>q<d. F ((q + a') mod d) q * (cnj (w d ^ (q * b)) * w d ^ (j * b)))"
    unfolding \<Phi>_def weyl_inner[OF assms]
    by (simp add: sum_distrib_right sum_distrib_left mult_ac)
  also have "\<dots> = (\<Sum>q<d. \<Sum>b<d. F ((q + a') mod d) q * (cnj (w d ^ (q * b)) * w d ^ (j * b)))"
    by (rule sum.swap)
  also have "\<dots> = (\<Sum>q<d. F ((q + a') mod d) q * (if q = j then of_nat d else 0))"
  proof (rule sum.cong[OF refl])
    fix q assume "q \<in> {..<d}"
    then have q: "q < d" by simp
    show "(\<Sum>b<d. F ((q + a') mod d) q * (cnj (w d ^ (q * b)) * w d ^ (j * b))) =
          F ((q + a') mod d) q * (if q = j then of_nat d else 0)"
      unfolding sum_distrib_left[symmetric] weyl_phase_sum[OF assms q j] ..
  qed
  also have "\<dots> = F ((j + a') mod d) j * of_nat d"
    using j by (simp only: sum_if_eq) simp
  finally show "(\<Sum>a<d. \<Sum>b<d. inner_sys d (weyl_entry d a b) F * weyl_entry d a b i j) =
        of_nat d * F i j"
    by (simp add: ia' mult.commute)
qed

lemma unit_weyl_entry:
  assumes "0 < d"
  shows "unit_sys d (weyl_entry d)"
  unfolding unit_sys_def
proof (intro allI impI)
  fix i j
  assume i: "i < d" and j: "j < d"
  define a' where "a' = (i + d - j) mod d"
  have a': "a' < d" using assms by (simp add: a'_def)
  have "(\<Sum>a<d. \<Sum>b<d. cmod (weyl_entry d a b i j)) = (\<Sum>a<d. if a = a' then real d else 0)"
  proof (rule sum.cong[OF refl])
    fix a assume "a \<in> {..<d}"
    then have a: "a < d" by simp
    show "(\<Sum>b<d. cmod (weyl_entry d a b i j)) = (if a = a' then real d else 0)"
      using shift_unique[OF i j a]
      by (simp add: weyl_entry_def a'_def norm_power norm_w)
  qed
  also have "\<dots> = real d"
    using a' by (simp add: sum.delta)
  finally show "(\<Sum>a<d. \<Sum>b<d. cmod (weyl_entry d a b i j)) = real d" .
qed

subsection \<open>Kronecker products and matrix products\<close>

lemma entry_kron:
  assumes "has_shape r c A" "has_shape r' c' B" "0 < r" "0 < r'" "i < r * r'" "j < c * c'"
  shows "entry (kron A B) i j =
         entry A (i div r') (j div c') * entry B (i mod r') (j mod c')"
  using assms by (simp add: kron_def has_shape_nrows has_shape_ncols)

lemma kron_matmul:
  assumes A: "has_shape N N A" and C: "has_shape N N C"
    and B: "has_shape d d B" and D: "has_shape d d D" and N: "0 < N" and d: "0 < d"
  shows "matmul (kron A B) (kron C D) = kron (matmul A C) (matmul B D)"
proof (rule mat_eqI[of "N * d" "N * d"])
  have AB: "has_shape (N * d) (N * d) (kron A B)" using has_shape_kron[OF A B N d] .
  have CD: "has_shape (N * d) (N * d) (kron C D)" using has_shape_kron[OF C D N d] .
  have Nd: "0 < N * d" using N d by simp
  show "has_shape (N * d) (N * d) (matmul (kron A B) (kron C D))"
    using has_shape_matmul[OF AB CD Nd] .
  have AC: "has_shape N N (matmul A C)" using has_shape_matmul[OF A C N] .
  have BD: "has_shape d d (matmul B D)" using has_shape_matmul[OF B D d] .
  show "has_shape (N * d) (N * d) (kron (matmul A C) (matmul B D))"
    using has_shape_kron[OF AC BD N d] .
  fix i j assume i: "i < N * d" and j: "j < N * d"
  have i1: "i div d < N" and j1: "j div d < N"
    using i j by (simp_all add: less_mult_imp_div_less)
  have i2: "i mod d < d" and j2: "j mod d < d" using d by simp_all
  have "entry (matmul (kron A B) (kron C D)) i j =
        (\<Sum>k<N * d. entry (kron A B) i k * entry (kron C D) k j)"
    using entry_matmul[OF AB CD Nd Nd i j] .
  also have "\<dots> = (\<Sum>k<N * d.
        (entry A (i div d) (k div d) * entry C (k div d) (j div d)) *
        (entry B (i mod d) (k mod d) * entry D (k mod d) (j mod d)))"
  proof (rule sum.cong[OF refl])
    fix k assume "k \<in> {..<N * d}"
    then have k: "k < N * d" by simp
    show "entry (kron A B) i k * entry (kron C D) k j =
        (entry A (i div d) (k div d) * entry C (k div d) (j div d)) *
        (entry B (i mod d) (k mod d) * entry D (k mod d) (j mod d))"
      by (simp add: entry_kron[OF A B N d i k] entry_kron[OF C D N d k j])
  qed
  also have "\<dots> = (\<Sum>k1<N. \<Sum>k2<d.
        (entry A (i div d) k1 * entry C k1 (j div d)) *
        (entry B (i mod d) k2 * entry D k2 (j mod d)))"
    by (rule sum_div_mod2[OF d, where N = N and
         g = "\<lambda>k1 k2. (entry A (i div d) k1 * entry C k1 (j div d)) *
                       (entry B (i mod d) k2 * entry D k2 (j mod d))"])
  also have "\<dots> = (\<Sum>k1<N. entry A (i div d) k1 * entry C k1 (j div d)) *
                   (\<Sum>k2<d. entry B (i mod d) k2 * entry D k2 (j mod d))"
    by (simp add: sum_product)
  also have "\<dots> = entry (matmul A C) (i div d) (j div d) * entry (matmul B D) (i mod d) (j mod d)"
    by (simp add: entry_matmul[OF A C N N i1 j1] entry_matmul[OF B D d d i2 j2])
  also have "\<dots> = entry (kron (matmul A C) (matmul B D)) i j"
    by (simp add: entry_kron[OF AC BD N d i j])
  finally show "entry (matmul (kron A B) (kron C D)) i j =
     entry (kron (matmul A C) (matmul B D)) i j" .
qed

lemma XZ_power_mk:
  assumes "2 \<le> d"
  shows "matmul (matrix_power (discrete_Weyl_X d) a) (matrix_power (discrete_Weyl_Z d) b) =
         mk d d (weyl_entry d a b)"
  using assms
  by (simp add: matrix_power_X matrix_power_Z matmul_mk sum_if_eq)
     (auto intro!: mk_cong simp: weyl_entry_def)

lemma weyl_G_snoc:
  assumes "2 \<le> d" "length s = n" "length t = n"
  shows "weyl_G d (s @ [a]) (t @ [b]) = kron (weyl_G d s t) (mk d d (weyl_entry d a b))"
proof -
  have X: "has_shape (d ^ n) (d ^ n) (nfold (discrete_Weyl_X d) s)"
    using has_shape_nfold_X[OF assms(1), of s] assms(2) by simp
  have Z: "has_shape (d ^ n) (d ^ n) (nfold (discrete_Weyl_Z d) t)"
    using has_shape_nfold_Z[OF assms(1), of t] assms(3) by simp
  have N: "0 < d ^ n" and d: "0 < d" using assms(1) by simp_all
  show ?thesis
    unfolding weyl_G_def nfold_snoc
    using kron_matmul[OF X Z has_shape_matrix_power_X[OF assms(1), of a] _ N d,
        of "matrix_power (discrete_Weyl_Z d) b"] assms(1)
    by (simp add: has_shape_matrix_power_Z XZ_power_mk)
qed

lemma weyl_G_nil: "weyl_G d [] [] = [[1]]"
  by (simp add: weyl_G_def nfold_def matmul_def mk_def nrows_def ncols_def entry_def)

lemma weyl_G_entry:
  assumes "2 \<le> d"
  shows "a < d ^ n \<Longrightarrow> b < d ^ n \<Longrightarrow> i < d ^ n \<Longrightarrow> j < d ^ n \<Longrightarrow>
     entry (weyl_G d (tuple_at d n a) (tuple_at d n b)) i j = pow_sys d (weyl_entry d) n a b i j"
proof (induction n arbitrary: a b i j)
  case 0
  then show ?case by (simp add: tuple_at_def weyl_G_nil entry_def)
next
  case (Suc n)
  have d: "0 < d" and N: "0 < d ^ n" using assms by simp_all
  have lt: "a div d < d ^ n" "b div d < d ^ n" "i div d < d ^ n" "j div d < d ^ n"
    using Suc.prems by (simp_all add: less_mult_imp_div_less mult.commute)
  have md: "i mod d < d" "j mod d < d" using d by simp_all
  have G: "has_shape (d ^ n) (d ^ n) (weyl_G d (tuple_at d n (a div d)) (tuple_at d n (b div d)))"
    using assms by (intro has_shape_weyl_G) simp_all
  have ij: "i < d ^ n * d" "j < d ^ n * d"
    using Suc.prems by (simp_all add: mult.commute)
  have "entry (weyl_G d (tuple_at d (Suc n) a) (tuple_at d (Suc n) b)) i j =
        entry (kron (weyl_G d (tuple_at d n (a div d)) (tuple_at d n (b div d)))
                 (mk d d (weyl_entry d (a mod d) (b mod d)))) i j"
    using assms d by (simp add: tuple_at_Suc weyl_G_snoc[where n = n])
  also have "\<dots> = entry (weyl_G d (tuple_at d n (a div d)) (tuple_at d n (b div d)))
                       (i div d) (j div d) *
                    weyl_entry d (a mod d) (b mod d) (i mod d) (j mod d)"
    using entry_kron[OF G has_shape_mk N d ij] md by simp
  also have "\<dots> = pow_sys d (weyl_entry d) (Suc n) a b i j"
    using Suc.IH[OF lt] by (simp add: tensor_sys_def)
  finally show ?case .
qed

subsection \<open>The rounding error of \<open>np.around\<close>\<close>

lemma rint_error: "\<bar>of_int (rint x) - x\<bar> \<le> 1 / 2"
proof -
  define f where "f = \<lfloor>x\<rfloor>"
  have f: "of_int f \<le> x" "x < of_int f + 1"
    unfolding f_def by linarith+
  have r: "rint x = (if x - of_int f < 1 / 2 then f else if 1 / 2 < x - of_int f then f + 1
                     else if even f then f else f + 1)"
    by (simp add: rint_def Let_def f_def)
  consider "x - of_int f < 1 / 2" | "1 / 2 < x - of_int f" | "x - of_int f = 1 / 2"
    by linarith
  then show ?thesis
  proof cases
    case 1
    then have "rint x = f" using r by simp
    then show ?thesis using 1 f by simp
  next
    case 2
    then have "rint x = f + 1" using r by simp
    then show ?thesis using 2 f by simp
  next
    case 3
    then have "rint x = f \<or> rint x = f + 1" using r by simp
    then show ?thesis using 3 by auto
  qed
qed

lemma around_real_error: "\<bar>around_real x k - x\<bar> \<le> (1 / 2) / 10 ^ k"
proof -
  have "around_real x k - x = (of_int (rint (x * 10 ^ k)) - x * 10 ^ k) / 10 ^ k"
    by (simp add: around_real_def field_simps)
  then have "\<bar>around_real x k - x\<bar> = \<bar>of_int (rint (x * 10 ^ k)) - x * 10 ^ k\<bar> / 10 ^ k"
    by (simp add: abs_divide)
  also have "\<dots> \<le> (1 / 2) / 10 ^ k"
    using rint_error[of "x * 10 ^ k"] by (intro divide_right_mono) simp_all
  finally show ?thesis .
qed

lemma around_error: "cmod (around z k - z) \<le> 1 / 10 ^ k"
proof -
  have "cmod (around z k - z) \<le> \<bar>Re (around z k - z)\<bar> + \<bar>Im (around z k - z)\<bar>"
    by (rule cmod_le)
  also have "\<dots> = \<bar>around_real (Re z) k - Re z\<bar> + \<bar>around_real (Im z) k - Im z\<bar>"
    by (simp add: around_def)
  also have "\<dots> \<le> (1 / 2) / 10 ^ k + (1 / 2) / 10 ^ k"
    by (intro add_mono around_real_error)
  finally show ?thesis by simp
qed

subsection \<open>Sums of matrices\<close>

lemma has_shape_madd: "has_shape r c A \<Longrightarrow> 0 < r \<Longrightarrow> has_shape r c (madd A B)"
  by (simp add: madd_def has_shape_nrows has_shape_ncols)

lemma entry_madd:
  "has_shape r c A \<Longrightarrow> 0 < r \<Longrightarrow> i < r \<Longrightarrow> j < c \<Longrightarrow>
   entry (madd A B) i j = entry A i j + entry B i j"
  by (simp add: madd_def has_shape_nrows has_shape_ncols)

lemma has_shape_smult: "has_shape r c A \<Longrightarrow> has_shape r c (smult a A)"
  by (simp add: smult_def has_shape_def list_all_iff)

lemma entry_smult:
  "has_shape r c A \<Longrightarrow> i < r \<Longrightarrow> j < c \<Longrightarrow> entry (smult a A) i j = a * entry A i j"
  by (simp add: smult_def has_shape_def entry_def list_all_length)

lemma foldl_madd:
  assumes "has_shape r c R" "0 < r" "i < r" "j < c"
  shows "has_shape r c (foldl madd R Ms) \<and>
         entry (foldl madd R Ms) i j = entry R i j + sum_list (map (\<lambda>M. entry M i j) Ms)"
  using assms(1)
proof (induction Ms arbitrary: R)
  case Nil
  then show ?case by simp
next
  case (Cons M Ms)
  have sh: "has_shape r c (madd R M)" using has_shape_madd[OF Cons.prems assms(2)] .
  show ?case
    using Cons.IH[OF sh] entry_madd[OF Cons.prems assms(2,3,4), of M] by (simp add: add.assoc)
qed

lemma weyl_sum_list_ok:
  assumes "\<And>s t. (s, t) \<in> set ps \<Longrightarrow> weyl_term \<omega> C d s t = Inr (M s t)"
  shows "weyl_sum_list \<omega> C d ps R = Inr (foldl madd R (map (\<lambda>p. M (fst p) (snd p)) ps))"
  using assms
proof (induction ps arbitrary: R)
  case Nil
  show ?case by simp
next
  case (Cons p ps)
  obtain s t where p: "p = (s, t)" by (cases p)
  have "weyl_term \<omega> C d s t = Inr (M s t)" using Cons.prems p by simp
  then show ?case using Cons p by simp
qed

lemma sum_list_concat_lists:
  fixes xss :: "complex list list"
  shows "sum_list (concat xss) = sum_list (map sum_list xss)"
  by (induction xss) simp_all

lemma sum_list_pairs:
  fixes f :: "'a \<times> 'a \<Rightarrow> complex"
  shows "sum_list (map f (concat (map (\<lambda>s. map (\<lambda>t. (s, t)) (map g [0..<N])) (map g [0..<N])))) =
     (\<Sum>a<N. \<Sum>b<N. f (g a, g b))"
proof -
  have "sum_list (map f (concat (map (\<lambda>s. map (\<lambda>t. (s, t)) (map g [0..<N])) (map g [0..<N])))) =
        sum_list (map (\<lambda>a. sum_list (map (\<lambda>b. f (g a, g b)) [0..<N])) [0..<N])"
    by (simp add: map_concat comp_def sum_list_concat_lists)
  also have "\<dots> = (\<Sum>a<N. \<Sum>b<N. f (g a, g b))"
    by (simp add: interv_sum_list_conv_sum_set_nat atLeast0LessThan)
  finally show ?thesis .
qed

subsection \<open>Reconstruction from rounded coefficients\<close>

lemma round_trip_bound:
  assumes E: "complete_sys N E" and U: "unit_sys N E" and N: "0 < N" and i: "i < N" and j: "j < N"
    and r: "\<And>a b. a < N \<Longrightarrow> b < N \<Longrightarrow> cmod (r a b - inner_sys N (E a b) F) \<le> \<epsilon>"
  shows "cmod ((\<Sum>a<N. \<Sum>b<N. (1 / of_nat N) * r a b * E a b i j) - F i j) \<le> \<epsilon>"
proof -
  have F: "F i j = (\<Sum>a<N. \<Sum>b<N. (1 / of_nat N) * inner_sys N (E a b) F * E a b i j)"
  proof -
    have "(\<Sum>a<N. \<Sum>b<N. (1 / of_nat N) * inner_sys N (E a b) F * E a b i j) =
          (1 / of_nat N) * (\<Sum>a<N. \<Sum>b<N. inner_sys N (E a b) F * E a b i j)"
      by (simp add: sum_distrib_left mult.assoc)
    also have "\<dots> = (1 / of_nat N) * (of_nat N * F i j)"
    proof -
      have "(\<Sum>a<N. \<Sum>b<N. inner_sys N (E a b) F * E a b i j) = of_nat N * F i j"
        using E i j unfolding complete_sys_def by blast
      then show ?thesis by (simp only:)
    qed
    also have "\<dots> = F i j" using N by simp
    finally show ?thesis by simp
  qed
  have pt: "(1 / of_nat N) * r a b * E a b i j - (1 / of_nat N) * inner_sys N (E a b) F * E a b i j =
        (1 / of_nat N) * (r a b - inner_sys N (E a b) F) * E a b i j" for a b
    by (simp only: left_diff_distrib right_diff_distrib)
  have "(\<Sum>a<N. \<Sum>b<N. (1 / of_nat N) * r a b * E a b i j) -
        (\<Sum>a<N. \<Sum>b<N. (1 / of_nat N) * inner_sys N (E a b) F * E a b i j) =
        (\<Sum>a<N. \<Sum>b<N. (1 / of_nat N) * (r a b - inner_sys N (E a b) F) * E a b i j)"
    by (simp only: sum_subtractf[symmetric] pt)
  then have eq: "(\<Sum>a<N. \<Sum>b<N. (1 / of_nat N) * r a b * E a b i j) - F i j =
        (\<Sum>a<N. \<Sum>b<N. (1 / of_nat N) * (r a b - inner_sys N (E a b) F) * E a b i j)"
    using F by (simp only:)
  have "cmod (\<Sum>a<N. \<Sum>b<N. (1 / of_nat N) * (r a b - inner_sys N (E a b) F) * E a b i j) \<le>
        (\<Sum>a<N. cmod (\<Sum>b<N. (1 / of_nat N) * (r a b - inner_sys N (E a b) F) * E a b i j))"
    by (rule norm_sum)
  also have "\<dots> \<le> (\<Sum>a<N. \<Sum>b<N. cmod ((1 / of_nat N) * (r a b - inner_sys N (E a b) F) * E a b i j))"
    by (rule sum_mono) (rule norm_sum)
  also have "\<dots> \<le> (\<Sum>a<N. \<Sum>b<N. (1 / real N) * \<epsilon> * cmod (E a b i j))"
  proof (rule sum_mono, rule sum_mono)
    fix a b assume "a \<in> {..<N}" "b \<in> {..<N}"
    then have ab: "a < N" "b < N" by simp_all
    have "cmod ((1 / of_nat N) * (r a b - inner_sys N (E a b) F) * E a b i j) =
          (1 / real N) * cmod (r a b - inner_sys N (E a b) F) * cmod (E a b i j)"
      by (simp add: norm_mult norm_divide)
    also have "\<dots> \<le> (1 / real N) * \<epsilon> * cmod (E a b i j)"
      using r[OF ab] by (intro mult_right_mono mult_left_mono) simp_all
    finally show "cmod ((1 / of_nat N) * (r a b - inner_sys N (E a b) F) * E a b i j) \<le>
        (1 / real N) * \<epsilon> * cmod (E a b i j)" .
  qed
  also have "\<dots> = (1 / real N) * \<epsilon> * (\<Sum>a<N. \<Sum>b<N. cmod (E a b i j))"
    by (simp add: sum_distrib_left)
  also have "\<dots> = (1 / real N) * \<epsilon> * real N"
  proof -
    have "(\<Sum>a<N. \<Sum>b<N. cmod (E a b i j)) = of_nat N"
      using U i j unfolding unit_sys_def by blast
    then show ?thesis by (simp only:)
  qed
  also have "\<dots> = \<epsilon>" using N by simp
  finally show ?thesis by (simp only: eq)
qed

lemma trace_inner:
  assumes G: "has_shape N N G" and X: "has_shape N N X" and N: "0 < N"
  shows "Tr (matmul (dag G) X) = inner_sys N (entry G) (entry X)"
proof -
  have D: "has_shape N N (dag G)" using has_shape_dag[OF G N] .
  have M: "has_shape N N (matmul (dag G) X)" using has_shape_matmul[OF D X N] .
  have e: "entry (dag G) q p = cnj (entry G p q)" if "p < N" "q < N" for p q
    using that G N by (simp add: dag_def has_shape_nrows has_shape_ncols)
  have "Tr (matmul (dag G) X) = (\<Sum>q<N. entry (matmul (dag G) X) q q)"
    using M N by (simp add: Tr_def has_shape_nrows has_shape_ncols)
  also have "\<dots> = (\<Sum>q<N. \<Sum>p<N. cnj (entry G p q) * entry X p q)"
  proof (rule sum.cong[OF refl])
    fix q assume "q \<in> {..<N}"
    then have q: "q < N" by simp
    have "entry (matmul (dag G) X) q q = (\<Sum>p<N. entry (dag G) q p * entry X p q)"
      using entry_matmul[OF D X N N q q] .
    also have "\<dots> = (\<Sum>p<N. cnj (entry G p q) * entry X p q)"
      by (rule sum.cong[OF refl]) (simp add: e q)
    finally show "entry (matmul (dag G) X) q q = (\<Sum>p<N. cnj (entry G p q) * entry X p q)" .
  qed
  also have "\<dots> = inner_sys N (entry G) (entry X)"
    unfolding inner_sys_def by (rule sum.swap)
  finally show ?thesis .
qed

lemma inner_sys_cong:
  assumes "\<And>p q. p < N \<Longrightarrow> q < N \<Longrightarrow> e p q = e' p q"
  shows "inner_sys N e F = inner_sys N e' F"
  unfolding inner_sys_def by (intro sum.cong refl) (simp add: assms)

subsection \<open>The functions with \<open>\<omega> = w d\<close>\<close>

lemma discrete_Weyl_Z_with_w: "discrete_Weyl_Z_with (w d) d = discrete_Weyl_Z d"
  by (simp add: discrete_Weyl_Z_with_def discrete_Weyl_Z_def)

lemma generate_nQudit_Z_with_w: "generate_nQudit_Z_with (w d) d s = generate_nQudit_Z d s"
  by (simp add: generate_nQudit_Z_with_def generate_nQudit_Z_def discrete_Weyl_Z_with_w)

lemma coeff_inner_with_w: "coeff_inner_with (w d) X d n s ts C = coeff_inner X d n s ts C"
  by (induction ts arbitrary: C) (simp_all add: generate_nQudit_Z_with_w split: sum.splits)

lemma coeff_outer_with_w: "coeff_outer_with (w d) X d n S ss C = coeff_outer X d n S ss C"
  by (induction ss arbitrary: C) (simp_all add: coeff_inner_with_w split: sum.splits)

lemma nQudit_Weyl_coeff_with_w: "nQudit_Weyl_coeff_with (w d) X d n = nQudit_Weyl_coeff X d n"
  by (simp add: nQudit_Weyl_coeff_with_def nQudit_Weyl_coeff_def coeff_outer_with_w)

lemma weyl_term_ok:
  assumes "2 \<le> d" "1 \<le> n" "has_shape (d ^ n) (d ^ n) X"
    "s \<in> index_lists d n" "t \<in> index_lists d n"
    and C: "nQudit_Weyl_coeff X d n = Inr C"
  shows "weyl_term (w d) C d s t = Inr (smult (weyl_val X d n (s, t)) (weyl_G d s t))"
proof -
  have len: "length s = n" "length t = n"
    using assms(4,5) by (simp_all add: index_lists_def)
  have "lookup_coeff (nQudit_Weyl_coeff X d n) s t = Some (weyl_val X d n (s, t))"
    using nQudit_Weyl_coeff_at[OF assms(1-5)] by (simp add: weyl_val_def)
  then have 1: "C (str_list s, str_list t) = Some (weyl_val X d n (s, t))"
    by (simp add: C lookup_coeff_def)
  have 2: "matmul_arr (generate_nQudit_X d s) (generate_nQudit_Z d t) = Inr (weyl_G d s t)"
    using weyl_step_ok[OF assms(1-3) len] by simp
  show ?thesis by (simp add: weyl_term_def generate_nQudit_Z_with_w 1 2)
qed

lemma weyl_sum_entry:
  assumes "2 \<le> d" "1 \<le> n" "has_shape (d ^ n) (d ^ n) X" "i < d ^ n" "j < d ^ n"
    and C: "nQudit_Weyl_coeff X d n = Inr C"
  shows "\<exists>R. weyl_sum (w d) C d n = Inr R \<and> has_shape (d ^ n) (d ^ n) R \<and>
     entry R i j =
       (\<Sum>a<d ^ n. \<Sum>b<d ^ n. (1 / of_nat (d ^ n)) *
          around (Tr (matmul (dag (weyl_G d (tuple_at d n a) (tuple_at d n b))) X)) 10 *
          pow_sys d (weyl_entry d) n a b i j)"
proof -
  let ?N = "d ^ n"
  have d: "0 < d" and N: "0 < ?N" using assms(1) by simp_all
  let ?S = "map (tuple_at d n) [0..<?N]"
  let ?ps = "concat (map (\<lambda>s. map (\<lambda>t. (s, t)) ?S) ?S)"
  let ?M = "\<lambda>p. smult (weyl_val X d n p) (weyl_G d (fst p) (snd p))"
  let ?Z = "mk ?N ?N (\<lambda>i j. 0)"
  have S: "itertools_product (replicate n [0..<d]) = ?S"
    using d by (rule itertools_product_tuples)
  have IL: "set ?S = index_lists d n"
    using set_itertools_product[of n d] unfolding S .
  have tm: "weyl_term (w d) C d s t = Inr (?M (s, t))" if "(s, t) \<in> set ?ps" for s t
  proof -
    have "s \<in> set ?S" "t \<in> set ?S" using that by auto
    then have "s \<in> index_lists d n" "t \<in> index_lists d n" unfolding IL by simp_all
    then show ?thesis using weyl_term_ok[OF assms(1-3) _ _ C] by simp
  qed
  have "weyl_sum_list (w d) C d ?ps ?Z = Inr (foldl madd ?Z (map (\<lambda>p. ?M (fst p, snd p)) ?ps))"
    by (rule weyl_sum_list_ok[of ?ps "w d" C d "\<lambda>s t. ?M (s, t)"]) (rule tm)
  then have R: "weyl_sum (w d) C d n = Inr (foldl madd ?Z (map ?M ?ps))"
    by (simp add: weyl_sum_def S)
  have F: "has_shape ?N ?N (foldl madd ?Z (map ?M ?ps)) \<and>
        entry (foldl madd ?Z (map ?M ?ps)) i j =
        entry ?Z i j + sum_list (map (\<lambda>M. entry M i j) (map ?M ?ps))"
    by (rule foldl_madd) (simp_all add: d assms(4,5))
  have "sum_list (map (\<lambda>M. entry M i j) (map ?M ?ps)) =
        sum_list (map (\<lambda>p. entry (?M p) i j) ?ps)"
    by (simp add: comp_def)
  also have "\<dots> = (\<Sum>a<?N. \<Sum>b<?N. entry (?M (tuple_at d n a, tuple_at d n b)) i j)"
    by (rule sum_list_pairs)
  also have "\<dots> = (\<Sum>a<?N. \<Sum>b<?N. (1 / of_nat ?N) *
          around (Tr (matmul (dag (weyl_G d (tuple_at d n a) (tuple_at d n b))) X)) 10 *
          pow_sys d (weyl_entry d) n a b i j)"
  proof (rule sum.cong[OF refl], rule sum.cong[OF refl])
    fix a b assume "a \<in> {..<?N}" "b \<in> {..<?N}"
    then have ab: "a < ?N" "b < ?N" by simp_all
    have G: "has_shape ?N ?N (weyl_G d (tuple_at d n a) (tuple_at d n b))"
      using assms(1) by (intro has_shape_weyl_G) simp_all
    show "entry (?M (tuple_at d n a, tuple_at d n b)) i j =
          (1 / of_nat ?N) *
          around (Tr (matmul (dag (weyl_G d (tuple_at d n a) (tuple_at d n b))) X)) 10 *
          pow_sys d (weyl_entry d) n a b i j"
      using entry_smult[OF G assms(4,5)] weyl_G_entry[OF assms(1) ab assms(4,5)]
      by (simp add: weyl_val_def)
  qed
  finally have "entry (foldl madd ?Z (map ?M ?ps)) i j =
       (\<Sum>a<?N. \<Sum>b<?N. (1 / of_nat ?N) *
          around (Tr (matmul (dag (weyl_G d (tuple_at d n a) (tuple_at d n b))) X)) 10 *
          pow_sys d (weyl_entry d) n a b i j)"
    using F assms(4,5) by simp
  then show ?thesis using R F by blast
qed



section \<open>The round trip with the double-precision value of \<open>w\<close>\<close>

lemma Z_with_loop:
  assumes "1 \<le> d"
  shows "Suc k \<le> d \<Longrightarrow>
    foldl (\<lambda>Z i. madd Z (matmul (smult (\<omega> ^ i) (ket d i)) (dag (ket d i))))
       (matmul (ket d 0) (dag (ket d 0))) [1..<Suc k] =
    mk d d (\<lambda>i j. if j < Suc k \<and> i = j then \<omega> ^ i else 0)"
proof (induction k)
  case 0
  then show ?case using assms by (auto simp: outer_ket intro!: mk_cong)
next
  case (Suc k)
  then show ?case using assms
    by (auto simp: outer_ket_smult madd_mk less_Suc_eq intro!: mk_cong)
qed

lemma discrete_Weyl_Z_with_mk:
  assumes "1 \<le> d"
  shows "discrete_Weyl_Z_with \<omega> d = mk d d (\<lambda>i j. if i = j then \<omega> ^ i else 0)"
proof -
  obtain k where k: "d = Suc k" using assms by (cases d) auto
  show ?thesis
    unfolding discrete_Weyl_Z_with_def
    using Z_with_loop[OF assms, of k] k by (auto intro!: mk_cong)
qed

lemma discrete_Weyl_Z_with_2: "discrete_Weyl_Z_with \<omega> 2 = [[1, 0], [0, \<omega>]]"
  by (simp add: discrete_Weyl_Z_with_mk mk_def upt_2)

lemma discrete_Weyl_X_2: "discrete_Weyl_X 2 = [[0, 1], [1, 0]]"
  by (simp add: discrete_Weyl_X_mk mk_def upt_2)

lemma matrix_power_2x2:
  "matrix_power [[a, b], [c, e]] 0 = [[1, 0], [0, 1]]"
  "matrix_power [[a, b], [c, e]] (Suc 0) = [[a, b], [c, e]]"
proof -
  have n: "nrows [[a, b], [c, e]] = 2" by (simp add: nrows_def)
  show "matrix_power [[a, b], [c, e]] 0 = [[1, 0], [0, 1]]"
    by (simp add: matrix_power.simps n eye_2)
  then show "matrix_power [[a, b], [c, e]] (Suc 0) = [[a, b], [c, e]]"
    by (simp add: matrix_power.simps matmul_2x2)
qed

lemma generate_nQudit_X_2:
  "generate_nQudit_X 2 [0] = Matrix [[1, 0], [0, 1]]"
  "generate_nQudit_X 2 [Suc 0] = Matrix [[0, 1], [1, 0]]"
  by (simp_all add: generate_nQudit_X_def discrete_Weyl_X_2 matrix_power_2x2 smult_def)

lemma generate_nQudit_Z_with_2:
  "generate_nQudit_Z_with \<omega> 2 [0] = Matrix [[1, 0], [0, 1]]"
  "generate_nQudit_Z_with \<omega> 2 [Suc 0] = Matrix [[1, 0], [0, \<omega>]]"
  by (simp_all add: generate_nQudit_Z_with_def discrete_Weyl_Z_with_2 matrix_power_2x2 smult_def)

lemma product_2_1: "itertools_product [[0..<2]] = [[0], [Suc 0]]"
  by (simp add: itertools_product_def product_step_def upt_2)

lemma str_list_bits: "str_list [0] = ''[0]''" "str_list [Suc 0] = ''[1]''"
  by (simp_all add: str_list_def str_nat.simps digit_char_def)

lemma madd_2x2:
  "madd [[a, b], [c, e]] [[f, g], [h, k]] = [[a + f, b + g], [c + h, e + k]]"
  by (simp add: madd_def mk_def nrows_def ncols_def entry_def upt_2)

lemma zero_2x2: "mk 2 2 (\<lambda>i j. 0) = [[0, 0], [0, 0]]"
  by (simp add: mk_def upt_2)

lemma nQudit_Weyl_coeff_with_qubit:
  "nQudit_Weyl_coeff_with \<omega> [[a, b], [c, e]] 2 1 =
     Inr [(''[0]'', ''[0]'') \<mapsto> around (a + e) 10 / 2,
          (''[0]'', ''[1]'') \<mapsto> around (a + cnj \<omega> * e) 10 / 2,
          (''[1]'', ''[0]'') \<mapsto> around (c + b) 10 / 2,
          (''[1]'', ''[1]'') \<mapsto> around (c + cnj \<omega> * b) 10 / 2]"
  by (simp add: nQudit_Weyl_coeff_with_def Let_def product_2_1 generate_nQudit_X_2
      generate_nQudit_Z_with_2 matmul_chk_def matmul_2x2 dag_2x2 Tr_2x2 nrows_def ncols_def
      str_list_bits)

lemma weyl_sum_qubit:
  "weyl_sum \<omega> [(''[0]'', ''[0]'') \<mapsto> c00, (''[0]'', ''[1]'') \<mapsto> c01,
                 (''[1]'', ''[0]'') \<mapsto> c10, (''[1]'', ''[1]'') \<mapsto> c11] 2 1 =
     Inr [[c00 + c01, c10 + c11 * \<omega>], [c10 + c11, c00 + c01 * \<omega>]]"
  by (simp add: weyl_sum_def Let_def weyl_term_def product_2_1 generate_nQudit_X_2
      generate_nQudit_Z_with_2 matmul_chk_def matmul_2x2 nrows_def ncols_def str_list_bits
      zero_2x2 madd_2x2 smult_def)

lemma round_trip_qubit:
  "round_trip \<omega> [[a, b], [c, e]] 2 1 =
     Inr [[around (a + e) 10 / 2 + around (a + cnj \<omega> * e) 10 / 2,
           around (c + b) 10 / 2 + around (c + cnj \<omega> * b) 10 / 2 * \<omega>],
          [around (c + b) 10 / 2 + around (c + cnj \<omega> * b) 10 / 2,
           around (a + e) 10 / 2 + around (a + cnj \<omega> * e) 10 / 2 * \<omega>]]"
  unfolding round_trip_def nQudit_Weyl_coeff_with_qubit
  by (simp only: sum.case weyl_sum_qubit)

lemma rint_eqI:
  assumes "of_int k - 1 / 2 < x" "x < of_int k + 1 / 2"
  shows "rint x = k"
proof (cases "of_int k \<le> x")
  case True
  then have f: "\<lfloor>x\<rfloor> = k" using assms by linarith
  then show ?thesis using assms by (simp add: rint_def Let_def)
next
  case False
  then have f: "\<lfloor>x\<rfloor> = k - 1" using assms by linarith
  then show ?thesis using assms False by (simp add: rint_def Let_def)
qed

lemma around_real_eqI:
  assumes "of_int k - 1 / 2 < x * 10 ^ 10" "x * 10 ^ 10 < of_int k + 1 / 2"
  shows "around_real x 10 = of_int k / 10 ^ 10"
  using rint_eqI[OF assms] by (simp add: around_real_def)

lemma around_eqI:
  assumes "around_real (Re z) 10 = x" "around_real (Im z) 10 = y"
  shows "around z 10 = Complex x y"
  using assms by (simp add: around_def)

lemma around_T00: "around (10 ^ 8 + 3 * 10 ^ 8) 10 = 4 * 10 ^ 8"
proof -
  have r: "around_real (400000000) 10 = 400000000"
    using around_real_eqI[of 4000000000000000000 400000000] by simp
  have i: "around_real 0 10 = 0"
    using around_real_eqI[of 0 0] by simp
  show ?thesis
    by (simp add: around_def r i complex_eq_iff)
qed

lemma around_T01:
  "around (10 ^ 8 + cnj w_double_2 * (3 * 10 ^ 8)) 10 = Complex (- (2 * 10 ^ 8)) (- (367 / 10 ^ 10))"
proof (rule around_eqI)
  show "around_real (Re (10 ^ 8 + cnj w_double_2 * (3 * 10 ^ 8))) 10 = - (2 * 10 ^ 8)"
    using around_real_eqI[of "- 2000000000000000000" "- 200000000"]
    by (simp add: w_double_2_def)
  show "around_real (Im (10 ^ 8 + cnj w_double_2 * (3 * 10 ^ 8))) 10 = - (367 / 10 ^ 10)"
    using around_real_eqI[of "- 367" "- (4967757600021511 / 2 ^ 105 * 300000000)"]
    by (simp add: w_double_2_def)
qed

lemma around_T10: "around (- (10 ^ 8 * \<i>) + 10 ^ 8 * \<i>) 10 = 0"
  using around_real_eqI[of 0 0] by (simp add: around_def complex_eq_iff)

lemma around_T11:
  "around (- (10 ^ 8 * \<i>) + cnj w_double_2 * (10 ^ 8 * \<i>)) 10 =
     Complex (122 / 10 ^ 10) (- (2 * 10 ^ 8))"
proof (rule around_eqI)
  show "around_real (Re (- (10 ^ 8 * \<i>) + cnj w_double_2 * (10 ^ 8 * \<i>))) 10 = 122 / 10 ^ 10"
    using around_real_eqI[of "122" "4967757600021511 / 2 ^ 105 * 100000000"]
    by (simp add: w_double_2_def)
  show "around_real (Im (- (10 ^ 8 * \<i>) + cnj w_double_2 * (10 ^ 8 * \<i>))) 10 = - (2 * 10 ^ 8)"
    using around_real_eqI[of "- 2000000000000000000" "- 200000000"]
    by (simp add: w_double_2_def)
qed

lemma cmod_imaginary: "cmod (Complex 0 y) = \<bar>y\<bar>"
  by (simp add: complex_norm)



end
